theory Spec2Isabelle
  imports Complex_Main
begin

section \<open>Geometry\<close>

text \<open>
  Qt's \<^verbatim>\<open>QPointF\<close> and \<^verbatim>\<open>QRectF\<close> hold \<^verbatim>\<open>qreal\<close> coordinates. Scene coordinates are
  modelled by \<^typ>\<open>real\<close>: the claims about geometry compare a stored point with the same
  expression evaluated again on the same operands, which agrees in exact and in rounded
  arithmetic. The zoom of the view is the one place where a product is compared with a
  bound; there the rounding of the product is kept explicit (section \<open>ZoomPanView\<close>).
\<close>

datatype QPointF = QPointF (xcoord: real) (ycoord: real)

datatype QRectF = QRectF (left: real) (top: real) (rect_width: real) (rect_height: real)

definition psub :: "QPointF \<Rightarrow> QPointF \<Rightarrow> QPointF" where
  \<comment> \<open>\<^verbatim>\<open>a - b\<close> on points\<close>
  "psub a b = QPointF (xcoord a - xcoord b) (ycoord a - ycoord b)"

definition padd :: "QPointF \<Rightarrow> QPointF \<Rightarrow> QPointF" where
  "padd a b = QPointF (xcoord a + xcoord b) (ycoord a + ycoord b)"

definition manhattanLength :: "QPointF \<Rightarrow> real" where
  "manhattanLength p = \<bar>xcoord p\<bar> + \<bar>ycoord p\<bar>"

text \<open>A painter path is the list of its elements, in the order they were added.\<close>

datatype path_element = MoveTo QPointF | CubicTo QPointF QPointF QPointF

type_synonym QPainterPath = "path_element list"

section \<open>ZoomPanView\<close>

text \<open>
  \<^verbatim>\<open>wheelEvent\<close> reads the horizontal scale \<^verbatim>\<open>m11\<close> of the view's transform and the two
  limits set in \<^verbatim>\<open>__init__\<close>, and changes the transform through \<^verbatim>\<open>self.scale\<close> only, which
  multiplies \<^verbatim>\<open>m11\<close> by the factor. Both products are IEEE double products: the exact
  product, rounded. The rounding is the parameter \<open>fl\<close>; the theorems say what they need
  of it (monotone, exact on the numbers named), and \<open>fl = id\<close> is exact arithmetic.
\<close>

record ZoomPanView =
  m11 :: real
  min_zoom :: real
  max_zoom :: real

definition ZoomPanView_init :: ZoomPanView where
  \<comment> \<open>a fresh view has the identity transform\<close>
  "ZoomPanView_init = \<lparr>m11 = 1, min_zoom = 0.25, max_zoom = 4.0\<rparr>"

definition zoom_in_factor :: real where
  "zoom_in_factor = 1.25"

definition zoom_out_factor :: "(real \<Rightarrow> real) \<Rightarrow> real" where
  "zoom_out_factor fl = fl (1 / zoom_in_factor)"

definition scale :: "(real \<Rightarrow> real) \<Rightarrow> ZoomPanView \<Rightarrow> real \<Rightarrow> ZoomPanView" where
  \<comment> \<open>\<^verbatim>\<open>self.scale(f, f)\<close>, as far as \<^verbatim>\<open>m11\<close> goes\<close>
  "scale fl v f = v\<lparr>m11 := fl (m11 v * f)\<rparr>"

definition wheelEvent :: "(real \<Rightarrow> real) \<Rightarrow> ZoomPanView \<Rightarrow> int \<Rightarrow> ZoomPanView" where
  \<comment> \<open>the integer is \<^verbatim>\<open>event.angleDelta().y()\<close>\<close>
  "wheelEvent fl v angleDelta_y =
     (let current_scale = m11 v in
      if angleDelta_y > 0 then
        (if fl (current_scale * zoom_in_factor) > max_zoom v then v
         else scale fl v zoom_in_factor)
      else
        (if fl (current_scale * zoom_out_factor fl) < min_zoom v then v
         else scale fl v (zoom_out_factor fl)))"

fun wheel_events :: "(real \<Rightarrow> real) \<Rightarrow> ZoomPanView \<Rightarrow> int list \<Rightarrow> ZoomPanView" where
  "wheel_events fl v [] = v"
| "wheel_events fl v (d # ds) = wheel_events fl (wheelEvent fl v d) ds"

section \<open>Nodes and connections\<close>

text \<open>
  Python objects are referred to by handle (a natural number); the objects live in stores
  of the scene state below. A node keeps the handles of its connections, a connection the
  handles of its two nodes.
\<close>

record CustomNode =
  pos :: QPointF
  width :: real
  height :: real
  port_radius :: real
  input_pos :: QPointF
  output_pos :: QPointF
  connections :: "nat list"

definition CustomNode_init :: CustomNode where
  \<comment> \<open>a fresh item is at the origin\<close>
  "CustomNode_init =
     \<lparr>pos = QPointF 0 0, width = 150, height = 100, port_radius = 6,
      input_pos = QPointF 0 (100 / 2), output_pos = QPointF 150 (100 / 2),
      connections = []\<rparr>"

definition boundingRect :: "CustomNode \<Rightarrow> QRectF" where
  "boundingRect n = QRectF (0 - port_radius n) 0 (width n + 2 * port_radius n) (height n)"

definition mapToScene :: "CustomNode \<Rightarrow> QPointF \<Rightarrow> QPointF" where
  \<comment> \<open>nodes are top-level items that are never rotated or scaled: scene = position + local\<close>
  "mapToScene n p = padd (pos n) p"

record ConnectionItem =
  start_item :: nat
  end_item :: nat
  zValue :: real
  path :: QPainterPath

definition ConnectionItem_init :: "nat \<Rightarrow> nat \<Rightarrow> ConnectionItem" where
  \<comment> \<open>\<^verbatim>\<open>ConnectionItem.__init__\<close>: stores both items, whatever they are; the path starts empty\<close>
  "ConnectionItem_init start_it end_it =
     \<lparr>start_item = start_it, end_item = end_it, zValue = - 1, path = []\<rparr>"

definition curve :: "QPointF \<Rightarrow> QPointF \<Rightarrow> QPainterPath" where
  \<comment> \<open>the body of \<^verbatim>\<open>update_path\<close> from the two port positions on\<close>
  "curve start_pos end_pos =
     (let dx = xcoord end_pos - xcoord start_pos;
          ctrl1 = QPointF (xcoord start_pos + dx * 0.5) (ycoord start_pos);
          ctrl2 = QPointF (xcoord start_pos + dx * 0.5) (ycoord end_pos)
      in [MoveTo start_pos, CubicTo ctrl1 ctrl2 end_pos])"

section \<open>The scene\<close>

text \<open>
  The scene state holds the objects (nodes, connections, the dashed lines made by
  \<^verbatim>\<open>addLine\<close>), the list of items that are in the scene in insertion order, the three
  gesture fields of \<^verbatim>\<open>NodeEditorScene\<close> and the drag mode of its view. \<^verbatim>\<open>MainWindow\<close>
  builds exactly one view on the scene, so \<^verbatim>\<open>self.views()[0]\<close> is that view. A new
  object takes the handle \<open>next_handle\<close>, which is then advanced: it differs from every
  handle given out before, as a new Python object differs from every live one.
\<close>

datatype item = Node nat | Connection nat | Line nat

datatype QLineF = QLineF real real real real

datatype DragMode = NoDrag | ScrollHandDrag | RubberBandDrag

datatype MouseButton = LeftButton | RightButton | MiddleButton

datatype error = AttributeError

record NodeEditorScene =
  items :: "item list"
  node_objs :: "nat \<rightharpoonup> CustomNode"
  conn_objs :: "nat \<rightharpoonup> ConnectionItem"
  line_objs :: "nat \<rightharpoonup> QLineF"
  next_handle :: nat
  line_in_progress :: "nat option"
  scene_start_item :: "nat option"
  scene_start_pos :: "QPointF option"
  dragMode :: DragMode

definition NodeEditorScene_init :: NodeEditorScene where
  "NodeEditorScene_init =
     \<lparr>items = [], node_objs = Map.empty, conn_objs = Map.empty, line_objs = Map.empty,
      next_handle = 0, line_in_progress = None, scene_start_item = None,
      scene_start_pos = None, dragMode = RubberBandDrag\<rparr>"

text \<open>
  Which item is topmost at a point is decided by Qt from shapes and stacking order. The
  answer of \<^verbatim>\<open>self.itemAt(event.scenePos(), view.transform())\<close> comes with the event.
\<close>

record QGraphicsSceneMouseEvent =
  button :: MouseButton
  scenePos :: QPointF
  itemAt :: "item option"

definition isinstance_CustomNode :: "NodeEditorScene \<Rightarrow> item option \<Rightarrow> (nat \<times> CustomNode) option" where
  \<comment> \<open>the handle and the object when the item is a node; a handle with no object is no node\<close>
  "isinstance_CustomNode s it =
     (case it of
        Some (Node n) \<Rightarrow> (case node_objs s n of Some nd \<Rightarrow> Some (n, nd) | None \<Rightarrow> None)
      | _ \<Rightarrow> None)"

definition addItem :: "NodeEditorScene \<Rightarrow> item \<Rightarrow> NodeEditorScene" where
  "addItem s it = s\<lparr>items := items s @ [it]\<rparr>"

definition removeItem :: "NodeEditorScene \<Rightarrow> item \<Rightarrow> NodeEditorScene" where
  "removeItem s it = s\<lparr>items := removeAll it (items s)\<rparr>"

definition addLine :: "NodeEditorScene \<Rightarrow> QLineF \<Rightarrow> nat \<times> NodeEditorScene" where
  "addLine s line =
     (let l = next_handle s
      in (l, addItem (s\<lparr>line_objs := (line_objs s)(l \<mapsto> line), next_handle := Suc l\<rparr>) (Line l)))"

definition update_path :: "NodeEditorScene \<Rightarrow> nat \<Rightarrow> NodeEditorScene" where
  \<comment> \<open>\<^verbatim>\<open>ConnectionItem.update_path\<close> of the connection with handle \<open>c\<close>\<close>
  "update_path s c =
     (case conn_objs s c of
        None \<Rightarrow> s
      | Some conn \<Rightarrow>
          (case (node_objs s (start_item conn), node_objs s (end_item conn)) of
             (Some start_nd, Some end_nd) \<Rightarrow>
               (let start_pos = mapToScene start_nd (output_pos start_nd);
                    end_pos = mapToScene end_nd (input_pos end_nd)
                in s\<lparr>conn_objs := (conn_objs s)(c \<mapsto> conn\<lparr>path := curve start_pos end_pos\<rparr>)\<rparr>)
           | _ \<Rightarrow> s))"

datatype GraphicsItemChange = ItemPositionChange | ItemPositionHasChanged | ItemSelectedHasChanged

definition itemChange :: "NodeEditorScene \<Rightarrow> nat \<Rightarrow> GraphicsItemChange \<Rightarrow> NodeEditorScene" where
  \<comment> \<open>\<^verbatim>\<open>CustomNode.itemChange\<close> of the node with handle \<open>n\<close>; the value is passed through\<close>
  "itemChange s n change =
     (if change = ItemPositionHasChanged then
        (case node_objs s n of
           None \<Rightarrow> s
         | Some nd \<Rightarrow> foldl update_path s (connections nd))
      else s)"

definition setPos :: "NodeEditorScene \<Rightarrow> nat \<Rightarrow> QPointF \<Rightarrow> NodeEditorScene" where
  \<comment> \<open>Qt's \<^verbatim>\<open>setPos\<close> on an item with \<^verbatim>\<open>ItemSendsGeometryChanges\<close>, which \<^verbatim>\<open>__init__\<close> sets:
      nothing when the position is the old one, else both notifications around the move\<close>
  "setPos s n p =
     (case node_objs s n of
        None \<Rightarrow> s
      | Some nd \<Rightarrow>
          if pos nd = p then s
          else
            (let s1 = itemChange s n ItemPositionChange;
                 s2 = s1\<lparr>node_objs := (node_objs s1)(n \<mapsto> nd\<lparr>pos := p\<rparr>)\<rparr>
             in itemChange s2 n ItemPositionHasChanged))"

definition on_add_node_clicked :: "NodeEditorScene \<Rightarrow> int \<Rightarrow> int \<Rightarrow> NodeEditorScene" where
  \<comment> \<open>the two integers are the results of \<^verbatim>\<open>random.randint\<close>\<close>
  "on_add_node_clicked s rx ry =
     (let n = next_handle s;
          s1 = s\<lparr>node_objs := (node_objs s)(n \<mapsto> CustomNode_init), next_handle := Suc n\<rparr>;
          s2 = setPos s1 n (QPointF (of_int rx) (of_int ry))
      in addItem s2 (Node n))"

definition append_connection :: "NodeEditorScene \<Rightarrow> nat \<Rightarrow> nat \<Rightarrow> NodeEditorScene" where
  \<comment> \<open>\<^verbatim>\<open>node.connections.append(conn)\<close>\<close>
  "append_connection s n c =
     (case node_objs s n of
        None \<Rightarrow> s
      | Some nd \<Rightarrow> s\<lparr>node_objs := (node_objs s)(n \<mapsto> nd\<lparr>connections := connections nd @ [c]\<rparr>)\<rparr>)"

text \<open>
  \<^verbatim>\<open>super().mousePressEvent\<close> and its siblings are Qt's default handling (selection, moving
  the selected items). They touch none of the fields above, except that a drag of a node
  ends in \<^verbatim>\<open>setPos\<close>, which is an event of its own below.
\<close>

definition mousePressEvent :: "NodeEditorScene \<Rightarrow> QGraphicsSceneMouseEvent \<Rightarrow> NodeEditorScene" where
  "mousePressEvent s event =
     (if button event = LeftButton then
        (case isinstance_CustomNode s (itemAt event) of
           Some (n, nd) \<Rightarrow>
             (let output_port_pos = mapToScene nd (output_pos nd) in
              if manhattanLength (psub (scenePos event) output_port_pos) < 15.0 then
                (let s1 = s\<lparr>scene_start_item := Some n, scene_start_pos := Some output_port_pos\<rparr>;
                     s2 = s1\<lparr>dragMode := NoDrag\<rparr>;
                     (l, s3) = addLine s2 (QLineF (xcoord output_port_pos) (ycoord output_port_pos)
                                                 (xcoord output_port_pos) (ycoord output_port_pos))
                 in s3\<lparr>line_in_progress := Some l\<rparr>)
              else s)
         | None \<Rightarrow> s)
      else s)"

definition mouseMoveEvent :: "NodeEditorScene \<Rightarrow> QGraphicsSceneMouseEvent \<Rightarrow> error + NodeEditorScene" where
  "mouseMoveEvent s event =
     (case line_in_progress s of
        Some l \<Rightarrow>
          (case scene_start_pos s of
             None \<Rightarrow> Inl AttributeError
           | Some sp \<Rightarrow>
               Inr (s\<lparr>line_objs := (line_objs s)(l \<mapsto>
                     QLineF (xcoord sp) (ycoord sp)
                            (xcoord (scenePos event)) (ycoord (scenePos event)))\<rparr>))
      | None \<Rightarrow> Inr s)"

definition mouseReleaseEvent :: "NodeEditorScene \<Rightarrow> QGraphicsSceneMouseEvent \<Rightarrow> error + NodeEditorScene" where
  "mouseReleaseEvent s event =
     (case line_in_progress s of
        Some l \<Rightarrow>
          (let s1 = s\<lparr>dragMode := RubberBandDrag\<rparr>;
               s2 = removeItem s1 (Line l);
               reset = (\<lambda>t. t\<lparr>line_in_progress := None, scene_start_item := None,
                                scene_start_pos := None\<rparr>)
           in case isinstance_CustomNode s2 (itemAt event) of
                Some (e, end_nd) \<Rightarrow>
                  if scene_start_item s2 \<noteq> Some e then
                    (let input_port_pos = mapToScene end_nd (input_pos end_nd) in
                     if manhattanLength (psub (scenePos event) input_port_pos) < 15.0 then
                       (case scene_start_item s2 of
                          None \<Rightarrow> Inl AttributeError
                        | Some a \<Rightarrow>
                            (let c = next_handle s2;
                                 s3 = s2\<lparr>conn_objs := (conn_objs s2)(c \<mapsto> ConnectionItem_init a e),
                                         next_handle := Suc c\<rparr>;
                                 s4 = addItem s3 (Connection c);
                                 s5 = append_connection s4 a c;
                                 s6 = append_connection s5 e c;
                                 s7 = update_path s6 c
                             in Inr (reset s7)))
                     else Inr (reset s2))
                  else Inr (reset s2)
              | None \<Rightarrow> Inr (reset s2))
      | None \<Rightarrow> Inr s)"

datatype event =
    AddNode int int
  | MousePress QGraphicsSceneMouseEvent
  | MouseMove QGraphicsSceneMouseEvent
  | MouseRelease QGraphicsSceneMouseEvent
  | NodeMoved nat QPointF

fun step :: "NodeEditorScene \<Rightarrow> event \<Rightarrow> error + NodeEditorScene" where
  "step s (AddNode rx ry) = Inr (on_add_node_clicked s rx ry)"
| "step s (MousePress ev) = Inr (mousePressEvent s ev)"
| "step s (MouseMove ev) = mouseMoveEvent s ev"
| "step s (MouseRelease ev) = mouseReleaseEvent s ev"
| "step s (NodeMoved n p) = Inr (setPos s n p)"

fun run :: "NodeEditorScene \<Rightarrow> event list \<Rightarrow> error + NodeEditorScene" where
  "run s [] = Inr s"
| "run s (ev # evs) = (case step s ev of Inl e \<Rightarrow> Inl e | Inr s' \<Rightarrow> run s' evs)"

section \<open>What the claims speak of\<close>

definition output_port_pos :: "NodeEditorScene \<Rightarrow> nat \<Rightarrow> QPointF option" where
  \<comment> \<open>world position of the output port of node \<open>n\<close>\<close>
  "output_port_pos s n = map_option (\<lambda>nd. mapToScene nd (output_pos nd)) (node_objs s n)"

definition input_port_pos :: "NodeEditorScene \<Rightarrow> nat \<Rightarrow> QPointF option" where
  "input_port_pos s n = map_option (\<lambda>nd. mapToScene nd (input_pos nd)) (node_objs s n)"

definition ends :: "NodeEditorScene \<Rightarrow> nat \<Rightarrow> (nat \<times> nat) option" where
  \<comment> \<open>source and target of connection \<open>c\<close>\<close>
  "ends s c = map_option (\<lambda>conn. (start_item conn, end_item conn)) (conn_objs s c)"

definition attached :: "NodeEditorScene \<Rightarrow> nat \<Rightarrow> nat list" where
  \<comment> \<open>the attachment list of node \<open>n\<close>\<close>
  "attached s n = (case node_objs s n of None \<Rightarrow> [] | Some nd \<Rightarrow> connections nd)"

fun handle :: "item \<Rightarrow> nat" where
  "handle (Node n) = n"
| "handle (Connection c) = c"
| "handle (Line l) = l"

fun is_Line :: "item \<Rightarrow> bool" where
  "is_Line (Line l) = True"
| "is_Line _ = False"

fun is_Connection :: "item \<Rightarrow> bool" where
  "is_Connection (Connection c) = True"
| "is_Connection _ = False"

definition near :: "QPointF \<Rightarrow> QPointF \<Rightarrow> bool" where
  \<comment> \<open>the port hit test of both handlers\<close>
  "near p port \<longleftrightarrow> manhattanLength (psub p port) < 15.0"

definition connections_between :: "NodeEditorScene \<Rightarrow> nat \<Rightarrow> nat \<Rightarrow> item list" where
  \<comment> \<open>the connections from \<open>a\<close> to \<open>b\<close> that are in the scene\<close>
  "connections_between s a b =
     filter (\<lambda>it. case it of Connection c \<Rightarrow> ends s c = Some (a, b) | _ \<Rightarrow> False) (items s)"

definition entries_between :: "NodeEditorScene \<Rightarrow> nat \<Rightarrow> nat \<Rightarrow> nat \<Rightarrow> nat list" where
  \<comment> \<open>the entries of the attachment list of \<open>n\<close> that are connections from \<open>a\<close> to \<open>b\<close>\<close>
  "entries_between s n a b = filter (\<lambda>c. ends s c = Some (a, b)) (attached s n)"

definition gesture :: "NodeEditorScene \<Rightarrow> nat \<Rightarrow> nat \<Rightarrow> QPointF \<times> QPointF \<Rightarrow> error + NodeEditorScene" where
  \<comment> \<open>left button down at \<open>fst pq\<close> over node \<open>a\<close>, up at \<open>snd pq\<close> over node \<open>b\<close>\<close>
  "gesture s a b pq =
     run s [MousePress \<lparr>button = LeftButton, scenePos = fst pq, itemAt = Some (Node a)\<rparr>,
            MouseRelease \<lparr>button = LeftButton, scenePos = snd pq, itemAt = Some (Node b)\<rparr>]"

fun gestures :: "NodeEditorScene \<Rightarrow> nat \<Rightarrow> nat \<Rightarrow> (QPointF \<times> QPointF) list \<Rightarrow> error + NodeEditorScene" where
  "gestures s a b [] = Inr s"
| "gestures s a b (pq # pqs) =
     (case gesture s a b pq of Inl e \<Rightarrow> Inl e | Inr s' \<Rightarrow> gestures s' a b pqs)"

text \<open>
  The invariant of the scene, in three parts: handles in use are below \<open>next_handle\<close>;
  every connection object is in the scene, joins two different existing nodes and is in
  the attachment lists of both, and every entry of an attachment list is such a
  connection; a gesture in progress has its source node and start position.
\<close>

definition handles_fresh :: "NodeEditorScene \<Rightarrow> bool" where
  "handles_fresh s \<longleftrightarrow>
     distinct (items s) \<and>
     (\<forall>it \<in> set (items s). handle it < next_handle s) \<and>
     (\<forall>n \<in> dom (node_objs s). n < next_handle s)"

definition graph_consistent :: "NodeEditorScene \<Rightarrow> bool" where
  "graph_consistent s \<longleftrightarrow>
     (\<forall>c a b. ends s c = Some (a, b) \<longrightarrow>
        Connection c \<in> set (items s) \<and> a \<noteq> b \<and>
        a \<in> dom (node_objs s) \<and> b \<in> dom (node_objs s) \<and>
        c \<in> set (attached s a) \<and> c \<in> set (attached s b)) \<and>
     (\<forall>c. Connection c \<in> set (items s) \<longrightarrow> ends s c \<noteq> None) \<and>
     (\<forall>n c. c \<in> set (attached s n) \<longrightarrow> (\<exists>a b. ends s c = Some (a, b) \<and> (n = a \<or> n = b)))"

definition gesture_ok :: "NodeEditorScene \<Rightarrow> bool" where
  "gesture_ok s \<longleftrightarrow>
     (line_in_progress s \<noteq> None \<longrightarrow> scene_start_item s \<noteq> None \<and> scene_start_pos s \<noteq> None) \<and>
     (\<forall>a. scene_start_item s = Some a \<longrightarrow> a \<in> dom (node_objs s))"

definition scene_inv :: "NodeEditorScene \<Rightarrow> bool" where
  "scene_inv s \<longleftrightarrow> handles_fresh s \<and> graph_consistent s \<and> gesture_ok s"

text \<open>The conditions under which the press handler starts a gesture and the release
  handler commits a connection, as the handlers test them.\<close>

definition press_valid :: "NodeEditorScene \<Rightarrow> QGraphicsSceneMouseEvent \<Rightarrow> bool" where
  "press_valid s ev \<longleftrightarrow>
     button ev = LeftButton \<and>
     (\<exists>n nd. itemAt ev = Some (Node n) \<and> node_objs s n = Some nd \<and>
        near (scenePos ev) (mapToScene nd (output_pos nd)))"

definition release_valid :: "NodeEditorScene \<Rightarrow> QGraphicsSceneMouseEvent \<Rightarrow> bool" where
  "release_valid s ev \<longleftrightarrow>
     (\<exists>e nd. itemAt ev = Some (Node e) \<and> node_objs s e = Some nd \<and> scene_start_item s \<noteq> Some e \<and>
        near (scenePos ev) (mapToScene nd (input_pos nd)))"

definition same_graph :: "NodeEditorScene \<Rightarrow> NodeEditorScene \<Rightarrow> bool" where
  \<comment> \<open>two states that differ at most in positions, paths, lines and the drag mode\<close>
  "same_graph s s' \<longleftrightarrow>
     items s' = items s \<and> next_handle s' = next_handle s \<and>
     dom (node_objs s') = dom (node_objs s) \<and> ends s' = ends s \<and> attached s' = attached s \<and>
     line_in_progress s' = line_in_progress s \<and> scene_start_item s' = scene_start_item s \<and>
     scene_start_pos s' = scene_start_pos s"

text \<open>
  The two ends of a path, the path that \<^verbatim>\<open>update_path\<close> would compute for a connection
  in a state, and the property that no path is stale.
\<close>

fun path_start :: "QPainterPath \<Rightarrow> QPointF option" where
  "path_start (MoveTo p # rest) = Some p"
| "path_start _ = None"

definition path_end :: "QPainterPath \<Rightarrow> QPointF option" where
  "path_end pa =
     (case rev pa of
        [] \<Rightarrow> None
      | MoveTo p # _ \<Rightarrow> Some p
      | CubicTo c1 c2 p # _ \<Rightarrow> Some p)"

definition current_path :: "NodeEditorScene \<Rightarrow> ConnectionItem \<Rightarrow> QPainterPath option" where
  "current_path s conn =
     (case (output_port_pos s (start_item conn), input_port_pos s (end_item conn)) of
        (Some sp, Some ep) \<Rightarrow> Some (curve sp ep)
      | _ \<Rightarrow> None)"

definition recompute :: "NodeEditorScene \<Rightarrow> ConnectionItem \<Rightarrow> ConnectionItem" where
  "recompute s conn = (case current_path s conn of Some pa \<Rightarrow> conn\<lparr>path := pa\<rparr> | None \<Rightarrow> conn)"

definition paths_current :: "NodeEditorScene \<Rightarrow> bool" where
  "paths_current s \<longleftrightarrow>
     (\<forall>c conn. conn_objs s c = Some conn \<longrightarrow> current_path s conn = Some (path conn))"

text \<open>A small session: two nodes at (0, 0) and (300, 0), then a drag from the output port
  of the first to the input port of the second. Handles: nodes 0 and 1, dashed line 2,
  connection 3.\<close>

definition demo_nodes :: "event list" where
  "demo_nodes = [AddNode 0 0, AddNode 300 0]"

definition demo_drag :: "event list" where
  "demo_drag = [AddNode 0 0, AddNode 300 0,
       MousePress \<lparr>button = LeftButton, scenePos = QPointF 150 50, itemAt = Some (Node 0)\<rparr>,
       MouseMove \<lparr>button = LeftButton, scenePos = QPointF 200 60, itemAt = None\<rparr>]"

definition demo :: "event list" where
  "demo = demo_drag @
       [MouseRelease \<lparr>button = LeftButton, scenePos = QPointF 300 50, itemAt = Some (Node 1)\<rparr>]"

text \<open>A second session: the same two nodes, a left press on the output port of the first,
  a second left press on the output port of the second with no release in between, then a
  release over the empty canvas. Handles: nodes 0 and 1, dashed lines 2 and 3.\<close>

definition double_press :: "event list" where
  "double_press = [AddNode 0 0, AddNode 300 0,
       MousePress \<lparr>button = LeftButton, scenePos = QPointF 150 50, itemAt = Some (Node 0)\<rparr>,
       MousePress \<lparr>button = LeftButton, scenePos = QPointF 450 50, itemAt = Some (Node 1)\<rparr>,
       MouseRelease \<lparr>button = LeftButton, scenePos = QPointF 200 300, itemAt = None\<rparr>]"

section \<open>Lemmas on the zoom\<close>

lemma wheelEvent_limits:
  "min_zoom (wheelEvent fl v d) = min_zoom v \<and> max_zoom (wheelEvent fl v d) = max_zoom v"
  by (simp add: wheelEvent_def scale_def Let_def)

lemma wheel_events_limits:
  "min_zoom (wheel_events fl v ds) = min_zoom v \<and> max_zoom (wheel_events fl v ds) = max_zoom v"
  by (induction ds arbitrary: v) (simp_all add: wheelEvent_limits)

lemma wheel_events_append:
  "wheel_events fl v (ds @ es) = wheel_events fl (wheel_events fl v ds) es"
  by (induction ds arbitrary: v) simp_all

lemma zoom_in_applied:
  assumes "0 < d" "max_zoom v = 4" "m11 v = (5 / 4) ^ k" "k < 6"
    and "fl ((5 / 4) ^ Suc k) = (5 / 4) ^ Suc k"
  shows "m11 (wheelEvent fl v d) = (5 / 4) ^ Suc k"
proof -
  have "(5 / 4 :: real) ^ Suc k \<le> (5 / 4) ^ 6"
    using assms(4) by (intro power_increasing) simp_all
  also have "\<dots> \<le> 4" by (simp add: power_divide)
  finally have le: "(5 / 4 :: real) ^ Suc k \<le> 4" .
  have "m11 v * zoom_in_factor = (5 / 4) ^ Suc k"
    using assms(3) by (simp add: zoom_in_factor_def)
  then have e: "fl (m11 v * zoom_in_factor) = (5 / 4) ^ Suc k"
    using assms(5) by (simp only:)
  have "\<not> max_zoom v < fl (m11 v * zoom_in_factor)"
    using le by (simp only: e assms(2) not_less)
  then have "wheelEvent fl v d = scale fl v zoom_in_factor"
    using assms(1) by (simp add: wheelEvent_def Let_def)
  then show ?thesis by (simp only: scale_def e) simp
qed

lemma zoom_in_rejected:
  assumes "0 < d" "max_zoom v = 4" "m11 v = (5 / 4) ^ 6"
    and "fl ((5 / 4) ^ 7) = (5 / 4) ^ 7"
  shows "wheelEvent fl v d = v"
proof -
  have "m11 v * zoom_in_factor = (5 / 4) ^ 7"
    using assms(3) by (simp add: zoom_in_factor_def power_divide)
  then have "fl (m11 v * zoom_in_factor) = (5 / 4) ^ 7" using assms(4) by simp
  then have "4 < fl (m11 v * zoom_in_factor)" by (simp add: power_divide)
  then show ?thesis using assms(1,2) by (simp add: wheelEvent_def Let_def)
qed

section \<open>Lemmas on the scene\<close>

lemma ends_update [simp]:
  "ends (s\<lparr>items := i\<rparr>) = ends s" "ends (s\<lparr>node_objs := no\<rparr>) = ends s"
  "ends (s\<lparr>line_objs := lo\<rparr>) = ends s" "ends (s\<lparr>next_handle := h\<rparr>) = ends s"
  "ends (s\<lparr>line_in_progress := lp\<rparr>) = ends s" "ends (s\<lparr>scene_start_item := si\<rparr>) = ends s"
  "ends (s\<lparr>scene_start_pos := sp\<rparr>) = ends s" "ends (s\<lparr>dragMode := dm\<rparr>) = ends s"
  by (simp_all add: ends_def fun_eq_iff)

lemma attached_update [simp]:
  "attached (s\<lparr>items := i\<rparr>) = attached s" "attached (s\<lparr>conn_objs := co\<rparr>) = attached s"
  "attached (s\<lparr>line_objs := lo\<rparr>) = attached s" "attached (s\<lparr>next_handle := h\<rparr>) = attached s"
  "attached (s\<lparr>line_in_progress := lp\<rparr>) = attached s"
  "attached (s\<lparr>scene_start_item := si\<rparr>) = attached s"
  "attached (s\<lparr>scene_start_pos := sp\<rparr>) = attached s" "attached (s\<lparr>dragMode := dm\<rparr>) = attached s"
  by (simp_all add: attached_def fun_eq_iff)

lemma same_graph_refl: "same_graph s s"
  by (simp add: same_graph_def)

lemma same_graph_trans: "same_graph s t \<Longrightarrow> same_graph t u \<Longrightarrow> same_graph s u"
  by (simp add: same_graph_def)

lemma same_graph_inv: "same_graph s s' \<Longrightarrow> scene_inv s \<Longrightarrow> scene_inv s'"
  unfolding same_graph_def scene_inv_def handles_fresh_def graph_consistent_def gesture_ok_def
  by simp

lemma update_path_same: "same_graph s (update_path s c)"
  by (auto simp: same_graph_def update_path_def ends_def attached_def fun_eq_iff Let_def
      split: option.splits)

lemma update_path_node_objs: "node_objs (update_path s c) = node_objs s"
  by (simp add: update_path_def Let_def split: option.splits)

lemma foldl_update_path_same: "same_graph s (foldl update_path s cs)"
proof (induction cs arbitrary: s)
  case Nil
  show ?case by (simp add: same_graph_refl)
next
  case (Cons c cs)
  show ?case using same_graph_trans[OF update_path_same Cons] by simp
qed

lemma foldl_update_path_node_objs: "node_objs (foldl update_path s cs) = node_objs s"
  by (induction cs arbitrary: s) (simp_all add: update_path_node_objs)

lemma setPos_same: "same_graph s (setPos s n p)"
proof (cases "node_objs s n")
  case None
  then show ?thesis by (simp add: setPos_def same_graph_refl)
next
  case (Some nd)
  let ?s2 = "s\<lparr>node_objs := (node_objs s)(n \<mapsto> nd\<lparr>pos := p\<rparr>)\<rparr>"
  have a: "same_graph s ?s2"
    using Some by (auto simp: same_graph_def ends_def attached_def fun_eq_iff)
  have b: "same_graph ?s2 (itemChange ?s2 n ItemPositionHasChanged)"
    by (simp add: itemChange_def foldl_update_path_same)
  show ?thesis
    using Some same_graph_trans[OF a b]
    by (simp add: setPos_def itemChange_def Let_def same_graph_refl)
qed

lemma release_idle: "line_in_progress s = None \<Longrightarrow> mouseReleaseEvent s ev = Inr s"
  by (simp add: mouseReleaseEvent_def)

lemma release_cancel:
  assumes "line_in_progress s = Some l" "\<not> release_valid s ev"
  shows "mouseReleaseEvent s ev =
     Inr (s\<lparr>dragMode := RubberBandDrag, items := removeAll (Line l) (items s),
            line_in_progress := None, scene_start_item := None, scene_start_pos := None\<rparr>)"
  using assms
  by (auto simp: mouseReleaseEvent_def release_valid_def isinstance_CustomNode_def removeItem_def
      near_def Let_def split: option.splits item.splits)

lemma release_connect:
  assumes "line_in_progress s = Some l" "scene_start_item s = Some a"
    and "itemAt ev = Some (Node e)" "node_objs s e = Some nd" "e \<noteq> a"
    and "near (scenePos ev) (mapToScene nd (input_pos nd))"
    and "node_objs s a = Some na"
  shows "\<exists>s'. mouseReleaseEvent s ev = Inr s' \<and>
     items s' = removeAll (Line l) (items s) @ [Connection (next_handle s)] \<and>
     next_handle s' = Suc (next_handle s) \<and>
     conn_objs s' = (conn_objs s)(next_handle s \<mapsto>
        \<lparr>start_item = a, end_item = e, zValue = - 1,
         path = curve (mapToScene na (output_pos na)) (mapToScene nd (input_pos nd))\<rparr>) \<and>
     node_objs s' = (node_objs s)(a \<mapsto> na\<lparr>connections := connections na @ [next_handle s]\<rparr>,
                                  e \<mapsto> nd\<lparr>connections := connections nd @ [next_handle s]\<rparr>) \<and>
     line_objs s' = line_objs s \<and> dragMode s' = RubberBandDrag \<and>
     line_in_progress s' = None \<and> scene_start_item s' = None \<and> scene_start_pos s' = None"
  using assms
  by (simp add: mouseReleaseEvent_def isinstance_CustomNode_def removeItem_def addItem_def
      append_connection_def update_path_def ConnectionItem_init_def mapToScene_def near_def Let_def)

lemma press_reject: "\<not> press_valid s ev \<Longrightarrow> mousePressEvent s ev = s"
  by (auto simp: mousePressEvent_def press_valid_def isinstance_CustomNode_def near_def Let_def
      split: option.splits item.splits)

lemma press_start:
  assumes "button ev = LeftButton" "itemAt ev = Some (Node n)" "node_objs s n = Some nd"
    and "near (scenePos ev) (mapToScene nd (output_pos nd))"
  shows "mousePressEvent s ev =
     s\<lparr>items := items s @ [Line (next_handle s)],
       line_objs := (line_objs s)(next_handle s \<mapsto>
          QLineF (xcoord (mapToScene nd (output_pos nd))) (ycoord (mapToScene nd (output_pos nd)))
                 (xcoord (mapToScene nd (output_pos nd))) (ycoord (mapToScene nd (output_pos nd)))),
       next_handle := Suc (next_handle s),
       line_in_progress := Some (next_handle s),
       scene_start_item := Some n,
       scene_start_pos := Some (mapToScene nd (output_pos nd)),
       dragMode := NoDrag\<rparr>"
  using assms
  by (simp add: mousePressEvent_def isinstance_CustomNode_def near_def Let_def addLine_def addItem_def)

lemma init_inv: "scene_inv NodeEditorScene_init"
  by (simp add: scene_inv_def handles_fresh_def graph_consistent_def gesture_ok_def
      NodeEditorScene_init_def ends_def attached_def)

lemma inv_fresh:
  assumes "scene_inv s"
  shows "Node (next_handle s) \<notin> set (items s)" "Connection (next_handle s) \<notin> set (items s)"
    "Line (next_handle s) \<notin> set (items s)" "node_objs s (next_handle s) = None"
    "ends s (next_handle s) = None" "conn_objs s (next_handle s) = None"
    "attached s (next_handle s) = []"
proof -
  have h: "\<forall>it \<in> set (items s). handle it < next_handle s"
    using assms by (simp add: scene_inv_def handles_fresh_def)
  show "Node (next_handle s) \<notin> set (items s)" using h by fastforce
  show c: "Connection (next_handle s) \<notin> set (items s)" using h by fastforce
  show "Line (next_handle s) \<notin> set (items s)" using h by fastforce
  have "\<forall>n \<in> dom (node_objs s). n < next_handle s"
    using assms by (simp add: scene_inv_def handles_fresh_def)
  then show n: "node_objs s (next_handle s) = None" by fastforce
  have "\<forall>c a b. ends s c = Some (a, b) \<longrightarrow> Connection c \<in> set (items s)"
    using assms by (simp add: scene_inv_def graph_consistent_def)
  then show e: "ends s (next_handle s) = None"
    using c by (cases "ends s (next_handle s)") auto
  then show "conn_objs s (next_handle s) = None" by (simp add: ends_def)
  show "attached s (next_handle s) = []" using n by (simp add: attached_def)
qed

lemma handles_fresh_add:
  assumes "handles_fresh s" and "items s' = removeAll x (items s) @ [it]"
    and "handle it = next_handle s" and "next_handle s' = Suc (next_handle s)"
    and "dom (node_objs s') \<subseteq> insert (next_handle s) (dom (node_objs s))"
  shows "handles_fresh s'"
proof -
  have d: "distinct (items s)" and h: "\<forall>i \<in> set (items s). handle i < next_handle s"
    and n: "\<forall>n \<in> dom (node_objs s). n < next_handle s"
    using assms(1) by (simp_all add: handles_fresh_def)
  have "it \<notin> set (items s)" using h assms(3) by fastforce
  then have "distinct (items s')" using d assms(2) by (simp add: distinct_removeAll)
  moreover have "\<forall>i \<in> set (items s'). handle i < next_handle s'"
    using h assms(2,3,4) by (auto simp: less_Suc_eq)
  moreover have "\<forall>n \<in> dom (node_objs s'). n < next_handle s'"
  proof
    fix m assume "m \<in> dom (node_objs s')"
    then have "m = next_handle s \<or> m \<in> dom (node_objs s)" using assms(5) by blast
    then show "m < next_handle s'" using n assms(4) by (auto simp: less_Suc_eq)
  qed
  ultimately show ?thesis by (simp add: handles_fresh_def)
qed

lemma handles_fresh_remove:
  assumes "handles_fresh s" and "items s' = removeAll x (items s)"
    and "next_handle s' = next_handle s" and "dom (node_objs s') = dom (node_objs s)"
  shows "handles_fresh s'"
  using assms by (simp add: handles_fresh_def distinct_removeAll)

lemma graph_frame:
  assumes "graph_consistent s"
    and "\<forall>c. Connection c \<in> set (items s') \<longleftrightarrow> Connection c \<in> set (items s)"
    and "ends s' = ends s" and "attached s' = attached s"
    and "dom (node_objs s) \<subseteq> dom (node_objs s')"
  shows "graph_consistent s'"
  using assms unfolding graph_consistent_def by (simp add: subset_iff)

lemma graph_connect:
  assumes g: "graph_consistent s" and fresh: "ends s c = None"
    and ae: "a \<noteq> e" "a \<in> dom (node_objs s)" "e \<in> dom (node_objs s)"
    and it: "\<forall>c'. Connection c' \<in> set (items s') \<longleftrightarrow> c' = c \<or> Connection c' \<in> set (items s)"
    and en: "ends s' = (ends s)(c \<mapsto> (a, e))"
    and at: "attached s' = (attached s)(a := attached s a @ [c], e := attached s e @ [c])"
    and dm: "dom (node_objs s') = dom (node_objs s)"
  shows "graph_consistent s'"
proof -
  have g1: "\<And>c' x y. ends s c' = Some (x, y) \<Longrightarrow>
        Connection c' \<in> set (items s) \<and> x \<noteq> y \<and>
        x \<in> dom (node_objs s) \<and> y \<in> dom (node_objs s) \<and>
        c' \<in> set (attached s x) \<and> c' \<in> set (attached s y)"
    and g2: "\<And>c'. Connection c' \<in> set (items s) \<Longrightarrow> ends s c' \<noteq> None"
    and g3: "\<And>n c'. c' \<in> set (attached s n) \<Longrightarrow> \<exists>x y. ends s c' = Some (x, y) \<and> (n = x \<or> n = y)"
    using g unfolding graph_consistent_def by blast+
  have p1: "\<forall>c' x y. ends s' c' = Some (x, y) \<longrightarrow>
        Connection c' \<in> set (items s') \<and> x \<noteq> y \<and>
        x \<in> dom (node_objs s') \<and> y \<in> dom (node_objs s') \<and>
        c' \<in> set (attached s' x) \<and> c' \<in> set (attached s' y)"
  proof (intro allI impI)
    fix c' x y assume h: "ends s' c' = Some (x, y)"
    show "Connection c' \<in> set (items s') \<and> x \<noteq> y \<and>
        x \<in> dom (node_objs s') \<and> y \<in> dom (node_objs s') \<and>
        c' \<in> set (attached s' x) \<and> c' \<in> set (attached s' y)"
    proof (cases "c' = c")
      case True
      then have "x = a" "y = e" using h en by simp_all
      then show ?thesis using True ae it at dm by simp
    next
      case False
      then have "ends s c' = Some (x, y)" using h en by simp
      from g1[OF this] show ?thesis using it at dm by auto
    qed
  qed
  have p2: "\<forall>c'. Connection c' \<in> set (items s') \<longrightarrow> ends s' c' \<noteq> None"
    using g2 it en by simp
  have p3: "\<forall>n c'. c' \<in> set (attached s' n) \<longrightarrow> (\<exists>x y. ends s' c' = Some (x, y) \<and> (n = x \<or> n = y))"
  proof (intro allI impI)
    fix n c' assume h: "c' \<in> set (attached s' n)"
    show "\<exists>x y. ends s' c' = Some (x, y) \<and> (n = x \<or> n = y)"
    proof (cases "c' = c")
      case True
      have "c \<notin> set (attached s n)" using g3[of c n] fresh by auto
      then have "n = a \<or> n = e" using h True at by (auto split: if_splits)
      then show ?thesis using True en by simp
    next
      case False
      then have "c' \<in> set (attached s n)" using h at by (auto split: if_splits)
      from g3[OF this] obtain x y where "ends s c' = Some (x, y)" "n = x \<or> n = y" by blast
      then show ?thesis using False en by simp
    qed
  qed
  show ?thesis unfolding graph_consistent_def using p1 p2 p3 by blast
qed

lemma scene_invD:
  assumes "scene_inv s"
  shows "handles_fresh s" "graph_consistent s" "gesture_ok s"
  using assms by (simp_all add: scene_inv_def)

lemma press_inv:
  assumes "scene_inv s"
  shows "scene_inv (mousePressEvent s ev)"
proof (cases "press_valid s ev")
  case False
  then show ?thesis using assms by (simp add: press_reject)
next
  case True
  then obtain n nd where h: "button ev = LeftButton" "itemAt ev = Some (Node n)"
    "node_objs s n = Some nd" "near (scenePos ev) (mapToScene nd (output_pos nd))"
    unfolding press_valid_def by blast
  let ?s' = "mousePressEvent s ev"
  note fr = inv_fresh[OF assms]
  note inv = scene_invD[OF assms]
  have obs: "items ?s' = items s @ [Line (next_handle s)]" "next_handle ?s' = Suc (next_handle s)"
    "node_objs ?s' = node_objs s" "ends ?s' = ends s" "attached ?s' = attached s"
    "line_in_progress ?s' = Some (next_handle s)" "scene_start_item ?s' = Some n"
    "scene_start_pos ?s' = Some (mapToScene nd (output_pos nd))"
    by (simp_all add: press_start[OF h])
  have i: "items ?s' = removeAll (Line (next_handle s)) (items s) @ [Line (next_handle s)]"
    using fr(3) by (simp add: obs)
  have sub: "dom (node_objs ?s') \<subseteq> insert (next_handle s) (dom (node_objs s))"
    by (simp add: obs subset_insertI)
  have 1: "handles_fresh ?s'"
    by (rule handles_fresh_add[OF inv(1) i _ obs(2) sub]) simp
  have cs: "\<forall>c. Connection c \<in> set (items ?s') \<longleftrightarrow> Connection c \<in> set (items s)"
    by (simp add: obs)
  have 2: "graph_consistent ?s'"
    by (rule graph_frame[OF inv(2) cs obs(4) obs(5)]) (simp add: obs)
  have 3: "gesture_ok ?s'" using h(3) by (simp add: gesture_ok_def obs dom_def)
  show ?thesis using 1 2 3 by (simp add: scene_inv_def)
qed

lemma move_inv:
  assumes "scene_inv s"
  shows "\<exists>s'. mouseMoveEvent s ev = Inr s' \<and> scene_inv s'"
proof (cases "line_in_progress s")
  case None
  then show ?thesis using assms by (simp add: mouseMoveEvent_def)
next
  case (Some l)
  have "gesture_ok s" by (rule scene_invD(3)[OF assms])
  then obtain sp where sp: "scene_start_pos s = Some sp"
    using Some unfolding gesture_ok_def by auto
  let ?s' = "s\<lparr>line_objs := (line_objs s)(l \<mapsto>
          QLineF (xcoord sp) (ycoord sp) (xcoord (scenePos ev)) (ycoord (scenePos ev)))\<rparr>"
  have sg: "same_graph s ?s'" by (simp add: same_graph_def)
  have "scene_inv ?s'" by (rule same_graph_inv[OF sg assms])
  moreover have "mouseMoveEvent s ev = Inr ?s'" using Some sp by (simp add: mouseMoveEvent_def)
  ultimately show ?thesis by simp
qed

lemma setPos_inv: "scene_inv s \<Longrightarrow> scene_inv (setPos s n p)"
  by (rule same_graph_inv[OF setPos_same])

lemma add_node_inv:
  assumes "scene_inv s"
  shows "scene_inv (on_add_node_clicked s rx ry)"
proof -
  let ?n = "next_handle s"
  let ?s1 = "s\<lparr>node_objs := (node_objs s)(?n \<mapsto> CustomNode_init), next_handle := Suc ?n\<rparr>"
  let ?s2 = "setPos ?s1 ?n (QPointF (of_int rx) (of_int ry))"
  let ?s' = "on_add_node_clicked s rx ry"
  note fr = inv_fresh[OF assms]
  note inv = scene_invD[OF assms]
  have att: "attached ?s1 = attached s"
    using fr(4) by (auto simp: attached_def fun_eq_iff CustomNode_init_def)
  have sg: "same_graph ?s1 ?s2" by (rule setPos_same)
  have fin: "?s' = addItem ?s2 (Node ?n)"
    by (simp add: on_add_node_clicked_def Let_def)
  have o1: "items ?s' = items ?s2 @ [Node ?n]" "next_handle ?s' = next_handle ?s2"
    "node_objs ?s' = node_objs ?s2" "ends ?s' = ends ?s2" "attached ?s' = attached ?s2"
    "line_in_progress ?s' = line_in_progress ?s2" "scene_start_item ?s' = scene_start_item ?s2"
    "scene_start_pos ?s' = scene_start_pos ?s2"
    unfolding fin by (simp_all add: addItem_def)
  have o2: "items ?s2 = items s" "next_handle ?s2 = Suc ?n"
    "dom (node_objs ?s2) = insert ?n (dom (node_objs s))" "ends ?s2 = ends s"
    "attached ?s2 = attached ?s1" "line_in_progress ?s2 = line_in_progress s"
    "scene_start_item ?s2 = scene_start_item s" "scene_start_pos ?s2 = scene_start_pos s"
    using sg unfolding same_graph_def by simp_all
  have i: "items ?s' = removeAll (Node ?n) (items s) @ [Node ?n]"
    using fr(1) by (simp add: o1 o2)
  have nx: "next_handle ?s' = Suc ?n" by (simp add: o1 o2)
  have dm: "dom (node_objs ?s') = insert ?n (dom (node_objs s))" by (simp add: o1 o2)
  have sub: "dom (node_objs ?s') \<subseteq> insert ?n (dom (node_objs s))" by (simp add: dm)
  have 1: "handles_fresh ?s'"
    by (rule handles_fresh_add[OF inv(1) i _ nx sub]) simp
  have cs: "\<forall>c. Connection c \<in> set (items ?s') \<longleftrightarrow> Connection c \<in> set (items s)"
    by (simp add: i)
  have en: "ends ?s' = ends s" by (simp add: o1 o2)
  have at: "attached ?s' = attached s" using att by (simp add: o1 o2)
  have 2: "graph_consistent ?s'"
    by (rule graph_frame[OF inv(2) cs en at]) (simp add: dm subset_insertI)
  have g: "line_in_progress ?s' = line_in_progress s" "scene_start_item ?s' = scene_start_item s"
    "scene_start_pos ?s' = scene_start_pos s" by (simp_all add: o1 o2)
  have 3: "gesture_ok ?s'" using inv(3) unfolding gesture_ok_def g dm by blast
  show ?thesis using 1 2 3 by (simp add: scene_inv_def)
qed

lemma release_inv:
  assumes "scene_inv s"
  shows "\<exists>s'. mouseReleaseEvent s ev = Inr s' \<and> scene_inv s'"
proof (cases "line_in_progress s")
  case None
  then show ?thesis using assms by (simp add: release_idle)
next
  case (Some l)
  note inv = scene_invD[OF assms]
  obtain a where a: "scene_start_item s = Some a"
    using inv(3) Some unfolding gesture_ok_def by auto
  then have "a \<in> dom (node_objs s)" using inv(3) unfolding gesture_ok_def by blast
  then obtain na where na: "node_objs s a = Some na" by auto
  show ?thesis
  proof (cases "release_valid s ev")
    case False
    let ?s' = "s\<lparr>dragMode := RubberBandDrag, items := removeAll (Line l) (items s),
            line_in_progress := None, scene_start_item := None, scene_start_pos := None\<rparr>"
    have 1: "handles_fresh ?s'"
      by (rule handles_fresh_remove[OF inv(1), of _ "Line l"]) simp_all
    have 2: "graph_consistent ?s'"
      by (rule graph_frame[OF inv(2)]) simp_all
    have 3: "gesture_ok ?s'" by (simp add: gesture_ok_def)
    show ?thesis using release_cancel[OF Some False] 1 2 3 by (simp add: scene_inv_def)
  next
    case True
    then obtain e nd where h: "itemAt ev = Some (Node e)" "node_objs s e = Some nd" "e \<noteq> a"
      "near (scenePos ev) (mapToScene nd (input_pos nd))"
      using a unfolding release_valid_def by auto
    let ?c = "next_handle s"
    from release_connect[OF Some a h na] obtain s' where r: "mouseReleaseEvent s ev = Inr s'"
      and obs: "items s' = removeAll (Line l) (items s) @ [Connection ?c]"
        "next_handle s' = Suc ?c"
        "conn_objs s' = (conn_objs s)(?c \<mapsto>
          \<lparr>start_item = a, end_item = e, zValue = - 1,
           path = curve (mapToScene na (output_pos na)) (mapToScene nd (input_pos nd))\<rparr>)"
        "node_objs s' = (node_objs s)(a \<mapsto> na\<lparr>connections := connections na @ [?c]\<rparr>,
                                  e \<mapsto> nd\<lparr>connections := connections nd @ [?c]\<rparr>)"
        "line_in_progress s' = None" "scene_start_item s' = None" "scene_start_pos s' = None"
      by blast
    note fr = inv_fresh[OF assms]
    have dm: "dom (node_objs s') = dom (node_objs s)"
      using na h(2) unfolding obs(4) by auto
    have en: "ends s' = (ends s)(?c \<mapsto> (a, e))"
      unfolding ends_def obs(3) by (simp add: fun_eq_iff)
    have at: "attached s' = (attached s)(a := attached s a @ [?c], e := attached s e @ [?c])"
      using na h(2,3) unfolding attached_def obs(4) by (simp add: fun_eq_iff)
    have sub: "dom (node_objs s') \<subseteq> insert ?c (dom (node_objs s))" by (simp add: dm subset_insertI)
    have 1: "handles_fresh s'"
      by (rule handles_fresh_add[OF inv(1) obs(1) _ obs(2) sub]) simp
    have ae: "a \<noteq> e" "a \<in> dom (node_objs s)" "e \<in> dom (node_objs s)"
      using h(2,3) na by auto
    have it: "\<forall>c'. Connection c' \<in> set (items s') \<longleftrightarrow> c' = ?c \<or> Connection c' \<in> set (items s)"
      unfolding obs(1) by auto
    have 2: "graph_consistent s'"
      by (rule graph_connect[OF inv(2) fr(5) ae it en at dm])
    have 3: "gesture_ok s'" by (simp add: gesture_ok_def obs)
    show ?thesis using r 1 2 3 by (simp add: scene_inv_def)
  qed
qed

lemma step_inv:
  assumes "scene_inv s"
  shows "\<exists>s'. step s ev = Inr s' \<and> scene_inv s'"
proof (cases ev)
  case (AddNode rx ry)
  then show ?thesis using add_node_inv[OF assms] by simp
next
  case (MousePress e)
  then show ?thesis using press_inv[OF assms] by simp
next
  case (MouseMove e)
  then show ?thesis using move_inv[OF assms] by simp
next
  case (MouseRelease e)
  then show ?thesis using release_inv[OF assms] by simp
next
  case (NodeMoved n p)
  then show ?thesis using setPos_inv[OF assms] by simp
qed

lemma run_inv:
  assumes "scene_inv s"
  shows "\<exists>s'. run s evs = Inr s' \<and> scene_inv s'"
  using assms
proof (induction evs arbitrary: s)
  case Nil
  then show ?case by simp
next
  case (Cons ev evs)
  from step_inv[OF Cons.prems] obtain s1 where s1: "step s ev = Inr s1" "scene_inv s1" by blast
  from Cons.IH[OF s1(2)] show ?case using s1(1) by simp
qed

lemmas scene_defs = on_add_node_clicked_def setPos_def itemChange_def addItem_def removeItem_def
  addLine_def update_path_def append_connection_def mousePressEvent_def mouseReleaseEvent_def
  mouseMoveEvent_def isinstance_CustomNode_def NodeEditorScene_init_def CustomNode_init_def
  ConnectionItem_init_def mapToScene_def padd_def psub_def manhattanLength_def curve_def Let_def

lemma wheelEvent_bounded:
  assumes mono: "\<And>a b. a \<le> b \<Longrightarrow> fl a \<le> fl b"
    and lo: "fl (min_zoom v) = min_zoom v" and hi: "fl (max_zoom v) = max_zoom v"
    and one: "fl 1 = 1" and pos: "0 \<le> min_zoom v"
    and inside: "min_zoom v \<le> m11 v" "m11 v \<le> max_zoom v"
  shows "min_zoom v \<le> m11 (wheelEvent fl v d) \<and> m11 (wheelEvent fl v d) \<le> max_zoom v"
proof (cases "d > 0")
  case True
  have "min_zoom v \<le> m11 v * zoom_in_factor"
    using inside pos by (simp add: zoom_in_factor_def)
  then have "fl (min_zoom v) \<le> fl (m11 v * zoom_in_factor)" by (rule mono)
  with True inside lo show ?thesis
    by (simp add: wheelEvent_def scale_def Let_def)
next
  case False
  have "1 / zoom_in_factor \<le> 1" by (simp add: zoom_in_factor_def)
  then have "fl (1 / zoom_in_factor) \<le> fl 1" by (rule mono)
  then have z: "zoom_out_factor fl \<le> 1" by (simp add: zoom_out_factor_def one)
  have "0 \<le> m11 v" using inside pos by simp
  then have "m11 v * zoom_out_factor fl \<le> m11 v * 1" using z by (rule mult_left_mono[rotated])
  then have "m11 v * zoom_out_factor fl \<le> max_zoom v" using inside by simp
  then have "fl (m11 v * zoom_out_factor fl) \<le> fl (max_zoom v)" by (rule mono)
  with False inside hi show ?thesis
    by (simp add: wheelEvent_def scale_def Let_def)
qed

lemma wheel_events_bounded:
  assumes mono: "\<And>a b. a \<le> b \<Longrightarrow> fl a \<le> fl b"
    and lo: "fl (min_zoom v) = min_zoom v" and hi: "fl (max_zoom v) = max_zoom v"
    and one: "fl 1 = 1" and pos: "0 \<le> min_zoom v"
    and inside: "min_zoom v \<le> m11 v" "m11 v \<le> max_zoom v"
  shows "min_zoom v \<le> m11 (wheel_events fl v ds) \<and> m11 (wheel_events fl v ds) \<le> max_zoom v"
  using lo hi pos inside
proof (induction ds arbitrary: v)
  case Nil
  then show ?case by simp
next
  case (Cons d ds)
  have b: "min_zoom v \<le> m11 (wheelEvent fl v d) \<and> m11 (wheelEvent fl v d) \<le> max_zoom v"
    using mono Cons.prems(1,2) one Cons.prems(3,4,5) by (rule wheelEvent_bounded)
  have "min_zoom (wheelEvent fl v d) \<le> m11 (wheel_events fl (wheelEvent fl v d) ds) \<and>
        m11 (wheel_events fl (wheelEvent fl v d) ds) \<le> max_zoom (wheelEvent fl v d)"
    by (rule Cons.IH) (use Cons.prems b in \<open>simp_all add: wheelEvent_limits\<close>)
  then show ?case by (simp add: wheelEvent_limits)
qed

lemma demo_state:
  "\<exists>s. run NodeEditorScene_init demo = Inr s \<and>
     items s = [Node 0, Node 1, Connection 3] \<and>
     conn_objs s 3 = Some \<lparr>start_item = 0, end_item = 1, zValue = - 1,
        path = [MoveTo (QPointF 150 50),
                CubicTo (QPointF 225 50) (QPointF 225 50) (QPointF 300 50)]\<rparr> \<and>
     node_objs s 0 = Some \<lparr>pos = QPointF 0 0, width = 150, height = 100, port_radius = 6,
        input_pos = QPointF 0 50, output_pos = QPointF 150 50, connections = [3]\<rparr> \<and>
     node_objs s 1 = Some \<lparr>pos = QPointF 300 0, width = 150, height = 100, port_radius = 6,
        input_pos = QPointF 0 50, output_pos = QPointF 150 50, connections = [3]\<rparr> \<and>
     line_in_progress s = None"
  by (simp add: demo_def demo_drag_def scene_defs)

lemma one_node_state:
  "items (on_add_node_clicked NodeEditorScene_init 0 0) = [Node 0] \<and>
   node_objs (on_add_node_clicked NodeEditorScene_init 0 0) 0 =
     Some \<lparr>pos = QPointF 0 0, width = 150, height = 100, port_radius = 6,
        input_pos = QPointF 0 50, output_pos = QPointF 150 50, connections = []\<rparr> \<and>
   line_in_progress (on_add_node_clicked NodeEditorScene_init 0 0) = None \<and>
   next_handle (on_add_node_clicked NodeEditorScene_init 0 0) = 1"
  by (simp add: scene_defs)

lemma demo_drag_state:
  "\<exists>s. run NodeEditorScene_init demo_drag = Inr s \<and>
     items s = [Node 0, Node 1, Line 2] \<and> line_in_progress s = Some 2 \<and>
     scene_start_item s = Some 0 \<and> next_handle s = 3 \<and> conn_objs s = Map.empty \<and>
     node_objs s 0 = Some \<lparr>pos = QPointF 0 0, width = 150, height = 100, port_radius = 6,
        input_pos = QPointF 0 50, output_pos = QPointF 150 50, connections = []\<rparr> \<and>
     node_objs s 1 = Some \<lparr>pos = QPointF 300 0, width = 150, height = 100, port_radius = 6,
        input_pos = QPointF 0 50, output_pos = QPointF 150 50, connections = []\<rparr>"
  by (simp add: demo_drag_def scene_defs)

lemma filter_removeAll_Line:
  "filter is_Connection (removeAll (Line l) xs) = filter is_Connection xs"
  by (induction xs) auto

lemma only_line_removed:
  assumes "\<forall>l'. Line l' \<in> set xs \<longrightarrow> l' = l"
  shows "filter is_Line (removeAll (Line l) xs) = []"
proof -
  have "\<And>x. x \<in> set (removeAll (Line l) xs) \<Longrightarrow> \<not> is_Line x"
  proof -
    fix x assume x: "x \<in> set (removeAll (Line l) xs)"
    then have m: "x \<in> set xs" "x \<noteq> Line l" by simp_all
    show "\<not> is_Line x"
    proof (cases x)
      case (Line l')
      then have "l' = l" using m(1) assms by blast
      then show ?thesis using m(2) Line by simp
    qed simp_all
  qed
  then show ?thesis by (simp add: filter_empty_conv)
qed

lemma inv_handle_bounds:
  assumes "scene_inv s"
  shows "Connection c \<in> set (items s) \<Longrightarrow> c < next_handle s"
    and "ends s c \<noteq> None \<Longrightarrow> c < next_handle s"
    and "c \<in> set (attached s n) \<Longrightarrow> c < next_handle s"
proof -
  have h: "\<forall>it \<in> set (items s). handle it < next_handle s"
    using scene_invD(1)[OF assms] by (simp add: handles_fresh_def)
  have g1: "\<And>c x y. ends s c = Some (x, y) \<Longrightarrow> Connection c \<in> set (items s)"
    and g3: "\<And>n c. c \<in> set (attached s n) \<Longrightarrow> \<exists>x y. ends s c = Some (x, y)"
    using scene_invD(2)[OF assms] unfolding graph_consistent_def by blast+
  show 1: "Connection c \<in> set (items s) \<Longrightarrow> c < next_handle s" for c
    using h by fastforce
  show 2: "ends s c \<noteq> None \<Longrightarrow> c < next_handle s" for c
    using g1[of c] 1[of c] by (cases "ends s c") auto
  show "c \<in> set (attached s n) \<Longrightarrow> c < next_handle s"
    using g3[of c n] 2[of c] by auto
qed

lemma gesture_adds:
  assumes inv: "scene_inv s" and ab: "a \<noteq> b"
    and p_out: "output_port_pos s a = Some p_out" and p_in: "input_port_pos s b = Some p_in"
    and np: "near (fst pq) p_out" and nq: "near (snd pq) p_in"
  shows "\<exists>s'. gesture s a b pq = Inr s' \<and> scene_inv s' \<and>
     output_port_pos s' a = Some p_out \<and> input_port_pos s' b = Some p_in \<and>
     connections_between s' a b = connections_between s a b @ [Connection (Suc (next_handle s))] \<and>
     entries_between s' a a b = entries_between s a a b @ [Suc (next_handle s)] \<and>
     entries_between s' b a b = entries_between s b a b @ [Suc (next_handle s)] \<and>
     Connection (Suc (next_handle s)) \<notin> set (connections_between s a b)"
proof -
  let ?l = "next_handle s"
  let ?c = "Suc ?l"
  let ?pe = "\<lparr>button = LeftButton, scenePos = fst pq, itemAt = Some (Node a)\<rparr>"
  let ?re = "\<lparr>button = LeftButton, scenePos = snd pq, itemAt = Some (Node b)\<rparr>"
  from p_out obtain na where na: "node_objs s a = Some na" "mapToScene na (output_pos na) = p_out"
    by (auto simp: output_port_pos_def)
  from p_in obtain nb where nb: "node_objs s b = Some nb" "mapToScene nb (input_pos nb) = p_in"
    by (auto simp: input_port_pos_def)
  let ?s1 = "mousePressEvent s ?pe"
  have h: "button ?pe = LeftButton" "itemAt ?pe = Some (Node a)" "node_objs s a = Some na"
    "near (scenePos ?pe) (mapToScene na (output_pos na))"
    using na np by simp_all
  have o1: "items ?s1 = items s @ [Line ?l]" "next_handle ?s1 = ?c"
    "node_objs ?s1 = node_objs s" "conn_objs ?s1 = conn_objs s"
    "line_in_progress ?s1 = Some ?l" "scene_start_item ?s1 = Some a"
    by (simp_all add: press_start[OF h])
  have inv1: "scene_inv ?s1" by (rule press_inv[OF inv])
  have h2: "itemAt ?re = Some (Node b)" "node_objs ?s1 b = Some nb" "b \<noteq> a"
    "near (scenePos ?re) (mapToScene nb (input_pos nb))"
    using nb nq ab by (simp_all add: o1)
  have na1: "node_objs ?s1 a = Some na" using na by (simp add: o1)
  from release_connect[OF o1(5) o1(6) h2 na1] obtain s' where r: "mouseReleaseEvent ?s1 ?re = Inr s'"
    and o2: "items s' = removeAll (Line ?l) (items ?s1) @ [Connection (next_handle ?s1)]"
      "conn_objs s' = (conn_objs ?s1)(next_handle ?s1 \<mapsto>
          \<lparr>start_item = a, end_item = b, zValue = - 1,
           path = curve (mapToScene na (output_pos na)) (mapToScene nb (input_pos nb))\<rparr>)"
      "node_objs s' = (node_objs ?s1)(a \<mapsto> na\<lparr>connections := connections na @ [next_handle ?s1]\<rparr>,
                                  b \<mapsto> nb\<lparr>connections := connections nb @ [next_handle ?s1]\<rparr>)"
    by blast
  have g: "gesture s a b pq = Inr s'" using r by (simp add: gesture_def)
  from release_inv[OF inv1, of ?re] r have inv': "scene_inv s'" by simp
  note fr = inv_fresh[OF inv]
  have it: "items s' = items s @ [Connection ?c]"
    using fr(3) by (simp add: o2 o1)
  have en: "ends s' = (ends s)(?c \<mapsto> (a, b))"
    by (simp add: ends_def fun_eq_iff o2 o1)
  have at: "attached s' a = attached s a @ [?c]" "attached s' b = attached s b @ [?c]"
    using na nb ab by (simp_all add: attached_def o2 o1)
  have pa: "output_port_pos s' a = Some p_out"
    using na ab by (simp add: output_port_pos_def o2 o1 mapToScene_def)
  have pb: "input_port_pos s' b = Some p_in"
    using nb ab by (simp add: input_port_pos_def o2 o1 mapToScene_def)
  have old: "\<And>c. c < ?l \<Longrightarrow> ends s' c = ends s c" by (simp add: en)
  have cb: "connections_between s' a b = connections_between s a b @ [Connection ?c]"
  proof -
    have "filter (\<lambda>it. case it of Connection c \<Rightarrow> ends s' c = Some (a, b) | _ \<Rightarrow> False) (items s)
        = filter (\<lambda>it. case it of Connection c \<Rightarrow> ends s c = Some (a, b) | _ \<Rightarrow> False) (items s)"
    proof (rule filter_cong[OF refl])
      fix x assume x: "x \<in> set (items s)"
      show "(case x of Connection c \<Rightarrow> ends s' c = Some (a, b) | _ \<Rightarrow> False)
          = (case x of Connection c \<Rightarrow> ends s c = Some (a, b) | _ \<Rightarrow> False)"
      proof (cases x)
        case (Connection c)
        then have "c < ?l" using x inv_handle_bounds(1)[OF inv] by simp
        then show ?thesis using Connection old by simp
      qed simp_all
    qed
    then show ?thesis by (simp add: connections_between_def it en)
  qed
  have fe: "filter (\<lambda>c. ends s' c = Some (a, b)) (attached s n)
        = filter (\<lambda>c. ends s c = Some (a, b)) (attached s n)" for n
  proof (rule filter_cong[OF refl])
    fix c assume "c \<in> set (attached s n)"
    then have "c < ?l" by (rule inv_handle_bounds(3)[OF inv])
    then show "(ends s' c = Some (a, b)) = (ends s c = Some (a, b))" using old by simp
  qed
  have new: "ends s' ?c = Some (a, b)" by (simp add: en)
  have ea: "entries_between s' a a b = entries_between s a a b @ [?c]"
    unfolding entries_between_def at using fe[of a] new by simp
  have eb: "entries_between s' b a b = entries_between s b a b @ [?c]"
    unfolding entries_between_def at using fe[of b] new by simp
  have nin: "Connection ?c \<notin> set (connections_between s a b)"
    using inv_handle_bounds(1)[OF inv, of ?c] by (auto simp: connections_between_def)
  from g inv' pa pb cb ea eb nin show ?thesis by blast
qed

lemma gestures_add:
  assumes "scene_inv s" and "a \<noteq> b"
    and "output_port_pos s a = Some p_out" and "input_port_pos s b = Some p_in"
    and "\<forall>pq \<in> set pqs. near (fst pq) p_out \<and> near (snd pq) p_in"
    and "distinct (connections_between s a b)"
  shows "\<exists>s'. gestures s a b pqs = Inr s' \<and>
     length (connections_between s' a b) = length (connections_between s a b) + length pqs \<and>
     distinct (connections_between s' a b) \<and>
     length (entries_between s' a a b) = length (entries_between s a a b) + length pqs \<and>
     length (entries_between s' b a b) = length (entries_between s b a b) + length pqs"
  using assms(1,3,4,5,6)
proof (induction pqs arbitrary: s)
  case Nil
  then show ?case by simp
next
  case (Cons pq pqs)
  have np: "near (fst pq) p_out" and nq: "near (snd pq) p_in" using Cons.prems(4) by simp_all
  from gesture_adds[OF Cons.prems(1) assms(2) Cons.prems(2,3) np nq]
  obtain s1 where s1: "gesture s a b pq = Inr s1" "scene_inv s1"
     "output_port_pos s1 a = Some p_out" "input_port_pos s1 b = Some p_in"
     "connections_between s1 a b = connections_between s a b @ [Connection (Suc (next_handle s))]"
     "entries_between s1 a a b = entries_between s a a b @ [Suc (next_handle s)]"
     "entries_between s1 b a b = entries_between s b a b @ [Suc (next_handle s)]"
     "Connection (Suc (next_handle s)) \<notin> set (connections_between s a b)"
    by blast
  have rest: "\<forall>pq \<in> set pqs. near (fst pq) p_out \<and> near (snd pq) p_in" using Cons.prems(4) by simp
  have d1: "distinct (connections_between s1 a b)"
    using Cons.prems(5) s1(8) by (simp add: s1(5))
  from Cons.IH[OF s1(2,3,4) rest d1] obtain s' where s': "gestures s1 a b pqs = Inr s'"
     "length (connections_between s' a b) = length (connections_between s1 a b) + length pqs"
     "distinct (connections_between s' a b)"
     "length (entries_between s' a a b) = length (entries_between s1 a a b) + length pqs"
     "length (entries_between s' b a b) = length (entries_between s1 b a b) + length pqs"
    by blast
  have "gestures s a b (pq # pqs) = Inr s'" using s1(1) s'(1) by simp
  moreover have "length (connections_between s' a b)
      = length (connections_between s a b) + length (pq # pqs)"
    using s'(2) by (simp add: s1(5))
  moreover have "length (entries_between s' a a b)
      = length (entries_between s a a b) + length (pq # pqs)"
    using s'(4) by (simp add: s1(6))
  moreover have "length (entries_between s' b a b)
      = length (entries_between s b a b) + length (pq # pqs)"
    using s'(5) by (simp add: s1(7))
  ultimately show ?case using s'(3) by blast
qed

lemma inv_distinct_between:
  assumes "scene_inv s"
  shows "distinct (connections_between s a b)"
proof -
  have "distinct (items s)" using scene_invD(1)[OF assms] by (simp add: handles_fresh_def)
  then show ?thesis by (simp add: connections_between_def)
qed

lemma demo_nodes_state:
  "\<exists>s. run NodeEditorScene_init demo_nodes = Inr s \<and>
     items s = [Node 0, Node 1] \<and> conn_objs s = Map.empty \<and>
     node_objs s 0 = Some \<lparr>pos = QPointF 0 0, width = 150, height = 100, port_radius = 6,
        input_pos = QPointF 0 50, output_pos = QPointF 150 50, connections = []\<rparr> \<and>
     node_objs s 1 = Some \<lparr>pos = QPointF 300 0, width = 150, height = 100, port_radius = 6,
        input_pos = QPointF 0 50, output_pos = QPointF 150 50, connections = []\<rparr>"
  by (simp add: demo_nodes_def scene_defs)

lemma current_path_cong:
  "node_objs s' = node_objs s \<Longrightarrow> current_path s' = current_path s"
  by (simp add: current_path_def output_port_pos_def input_port_pos_def fun_eq_iff)

lemma current_path_path_update [simp]:
  "current_path s (conn\<lparr>path := pa\<rparr>) = current_path s conn"
  by (simp add: current_path_def)

lemma recompute_cong: "node_objs s' = node_objs s \<Longrightarrow> recompute s' = recompute s"
  using current_path_cong[of s' s] by (simp add: recompute_def fun_eq_iff)

lemma current_path_recompute [simp]: "current_path s (recompute t conn) = current_path s conn"
  by (simp add: recompute_def current_path_def split: option.splits)

lemma recompute_ends [simp]:
  "start_item (recompute s conn) = start_item conn" "end_item (recompute s conn) = end_item conn"
  by (simp_all add: recompute_def split: option.splits)

lemma recompute_idem [simp]: "recompute s (recompute s conn) = recompute s conn"
  by (simp add: recompute_def current_path_def split: option.splits prod.splits)

lemma update_path_conn_objs:
  "conn_objs (update_path s c) c' =
     (if c' = c then map_option (recompute s) (conn_objs s c) else conn_objs s c')"
  by (auto simp: update_path_def recompute_def current_path_def output_port_pos_def
      input_port_pos_def Let_def split: option.splits)

lemma foldl_update_path_conn_objs:
  "conn_objs (foldl update_path t cs) c =
     map_option (\<lambda>conn. if c \<in> set cs then recompute t conn else conn) (conn_objs t c)"
proof (induction cs rule: rev_induct)
  case Nil
  show ?case by (simp add: option.map_ident)
next
  case (snoc c0 cs)
  let ?t1 = "foldl update_path t cs"
  have rc: "recompute ?t1 = recompute t"
    by (rule recompute_cong) (rule foldl_update_path_node_objs)
  show ?case
  proof (cases "c = c0")
    case True
    have ih: "conn_objs ?t1 c0 =
        map_option (\<lambda>conn. if c0 \<in> set cs then recompute t conn else conn) (conn_objs t c0)"
      using snoc True by simp
    show ?thesis
      unfolding True
      by (cases "conn_objs t c0") (simp_all add: update_path_conn_objs ih rc)
  next
    case False
    then show ?thesis by (simp add: update_path_conn_objs snoc)
  qed
qed

lemma setPos_node_objs:
  "node_objs (setPos s n p) =
     (case node_objs s n of None \<Rightarrow> node_objs s | Some nd \<Rightarrow> (node_objs s)(n \<mapsto> nd\<lparr>pos := p\<rparr>))"
proof (cases "node_objs s n")
  case None
  then show ?thesis by (simp add: setPos_def)
next
  case (Some nd)
  show ?thesis
  proof (cases "pos nd = p")
    case True
    have "(node_objs s)(n \<mapsto> nd\<lparr>pos := p\<rparr>) = node_objs s"
      using Some True by (auto simp: fun_eq_iff)
    then show ?thesis using Some True by (simp add: setPos_def)
  next
    case False
    then show ?thesis
      using Some by (simp add: setPos_def itemChange_def Let_def foldl_update_path_node_objs)
  qed
qed

lemma setPos_conn_objs:
  assumes "node_objs s n = Some nd" "pos nd \<noteq> p"
  shows "conn_objs (setPos s n p) c =
     map_option (\<lambda>conn. if c \<in> set (connections nd) then recompute (setPos s n p) conn else conn)
       (conn_objs s c)"
proof -
  let ?t = "s\<lparr>node_objs := (node_objs s)(n \<mapsto> nd\<lparr>pos := p\<rparr>)\<rparr>"
  have e: "setPos s n p = foldl update_path ?t (connections nd)"
    using assms by (simp add: setPos_def itemChange_def Let_def)
  have "node_objs (setPos s n p) = node_objs ?t"
    unfolding e by (rule foldl_update_path_node_objs)
  then have rc: "recompute (setPos s n p) = recompute ?t" by (rule recompute_cong)
  show ?thesis unfolding rc unfolding e by (simp add: foldl_update_path_conn_objs)
qed

lemma current_path_ports:
  assumes "output_port_pos s' (start_item conn) = output_port_pos s (start_item conn)"
    and "input_port_pos s' (end_item conn) = input_port_pos s (end_item conn)"
  shows "current_path s' conn = current_path s conn"
  using assms by (simp add: current_path_def)

lemma paths_current_frame:
  assumes "paths_current s" "conn_objs s' = conn_objs s" "node_objs s' = node_objs s"
  shows "paths_current s'"
  using assms current_path_cong[of s' s] by (simp add: paths_current_def)

lemma inv_conn_ends:
  assumes "scene_inv s" "conn_objs s c = Some conn"
  shows "start_item conn \<in> dom (node_objs s)" "end_item conn \<in> dom (node_objs s)"
    "c \<in> set (attached s (start_item conn))" "c \<in> set (attached s (end_item conn))"
proof -
  have "ends s c = Some (start_item conn, end_item conn)" using assms(2) by (simp add: ends_def)
  then have "start_item conn \<in> dom (node_objs s) \<and> end_item conn \<in> dom (node_objs s) \<and>
     c \<in> set (attached s (start_item conn)) \<and> c \<in> set (attached s (end_item conn))"
    using scene_invD(2)[OF assms(1)] unfolding graph_consistent_def by blast
  then show "start_item conn \<in> dom (node_objs s)" "end_item conn \<in> dom (node_objs s)"
    "c \<in> set (attached s (start_item conn))" "c \<in> set (attached s (end_item conn))"
    by simp_all
qed

lemma press_paths:
  assumes "paths_current s"
  shows "paths_current (mousePressEvent s ev)"
proof (cases "press_valid s ev")
  case False
  then show ?thesis using assms by (simp add: press_reject)
next
  case True
  then obtain n nd where h: "button ev = LeftButton" "itemAt ev = Some (Node n)"
    "node_objs s n = Some nd" "near (scenePos ev) (mapToScene nd (output_pos nd))"
    unfolding press_valid_def by blast
  show ?thesis
    by (rule paths_current_frame[OF assms]) (simp_all add: press_start[OF h])
qed

lemma move_paths:
  assumes "paths_current s" "mouseMoveEvent s ev = Inr s'"
  shows "paths_current s'"
proof -
  have "conn_objs s' = conn_objs s \<and> node_objs s' = node_objs s"
    using assms(2) by (auto simp: mouseMoveEvent_def split: option.splits)
  then show ?thesis using paths_current_frame[OF assms(1)] by blast
qed

lemma release_paths:
  assumes inv: "scene_inv s" and pc: "paths_current s" and r: "mouseReleaseEvent s ev = Inr s'"
  shows "paths_current s'"
proof (cases "line_in_progress s")
  case None
  then show ?thesis using pc r by (simp add: release_idle)
next
  case (Some l)
  note g = scene_invD(3)[OF inv]
  obtain a where a: "scene_start_item s = Some a"
    using g Some unfolding gesture_ok_def by auto
  then have "a \<in> dom (node_objs s)" using g unfolding gesture_ok_def by blast
  then obtain na where na: "node_objs s a = Some na" by auto
  show ?thesis
  proof (cases "release_valid s ev")
    case False
    have "conn_objs s' = conn_objs s" "node_objs s' = node_objs s"
      using release_cancel[OF Some False] r by auto
    then show ?thesis by (rule paths_current_frame[OF pc])
  next
    case True
    then obtain e nd where h: "itemAt ev = Some (Node e)" "node_objs s e = Some nd" "e \<noteq> a"
      "near (scenePos ev) (mapToScene nd (input_pos nd))"
      using a unfolding release_valid_def by auto
    let ?c = "next_handle s"
    let ?new = "\<lparr>start_item = a, end_item = e, zValue = - 1,
           path = curve (mapToScene na (output_pos na)) (mapToScene nd (input_pos nd))\<rparr>"
    from release_connect[OF Some a h na] r have
      obs: "conn_objs s' = (conn_objs s)(?c \<mapsto> ?new)"
        "node_objs s' = (node_objs s)(a \<mapsto> na\<lparr>connections := connections na @ [?c]\<rparr>,
                                  e \<mapsto> nd\<lparr>connections := connections nd @ [?c]\<rparr>)"
      by auto
    have po: "output_port_pos s' = output_port_pos s"
      using na h(2) by (auto simp: output_port_pos_def obs fun_eq_iff mapToScene_def)
    have pi: "input_port_pos s' = input_port_pos s"
      using na h(2) by (auto simp: input_port_pos_def obs fun_eq_iff mapToScene_def)
    have cp: "current_path s' = current_path s"
      by (simp add: current_path_def fun_eq_iff po pi)
    have new: "current_path s ?new = Some (path ?new)"
      using na h(2) by (simp add: current_path_def output_port_pos_def input_port_pos_def)
    show ?thesis
      unfolding paths_current_def cp obs
      using pc new by (auto simp: paths_current_def)
  qed
qed

lemma setPos_paths:
  assumes inv: "scene_inv s" and pc: "paths_current s"
  shows "paths_current (setPos s n p)"
proof (cases "node_objs s n")
  case None
  then show ?thesis using pc by (simp add: setPos_def)
next
  case (Some nd)
  show ?thesis
  proof (cases "pos nd = p")
    case True
    then show ?thesis using pc Some by (simp add: setPos_def)
  next
    case False
    let ?s' = "setPos s n p"
    have no: "node_objs ?s' = (node_objs s)(n \<mapsto> nd\<lparr>pos := p\<rparr>)"
      using Some by (simp add: setPos_node_objs)
    show ?thesis
      unfolding paths_current_def
    proof (intro allI impI)
      fix c conn' assume c': "conn_objs ?s' c = Some conn'"
      then obtain conn where c: "conn_objs s c = Some conn"
        and e: "conn' = (if c \<in> set (connections nd) then recompute ?s' conn else conn)"
        unfolding setPos_conn_objs[OF Some False] by auto
      note en = inv_conn_ends[OF inv c]
      have res: "current_path ?s' conn \<noteq> None"
        using en(1,2) by (auto simp: current_path_def output_port_pos_def input_port_pos_def no)
      show "current_path ?s' conn' = Some (path conn')"
      proof (cases "c \<in> set (connections nd)")
        case True
        then show ?thesis using e res by (auto simp: recompute_def)
      next
        case False
        then have "c \<notin> set (attached s n)" using Some by (simp add: attached_def)
        then have ne: "start_item conn \<noteq> n" "end_item conn \<noteq> n" using en(3,4) by auto
        have "current_path ?s' conn = current_path s conn"
          by (rule current_path_ports)
            (simp_all add: output_port_pos_def input_port_pos_def no ne)
        then show ?thesis using False e pc c by (simp add: paths_current_def)
      qed
    qed
  qed
qed

lemma add_node_paths:
  assumes inv: "scene_inv s" and pc: "paths_current s"
  shows "paths_current (on_add_node_clicked s rx ry)"
proof -
  let ?n = "next_handle s"
  let ?s1 = "s\<lparr>node_objs := (node_objs s)(?n \<mapsto> CustomNode_init), next_handle := Suc ?n\<rparr>"
  let ?p = "QPointF (of_int rx) (of_int ry)"
  let ?s2 = "setPos ?s1 ?n ?p"
  let ?s' = "on_add_node_clicked s rx ry"
  note fr = inv_fresh[OF inv]
  have fin: "?s' = addItem ?s2 (Node ?n)" by (simp add: on_add_node_clicked_def Let_def)
  have no: "node_objs ?s' = (node_objs s)(?n \<mapsto> CustomNode_init\<lparr>pos := ?p\<rparr>)"
    unfolding fin by (simp add: addItem_def setPos_node_objs)
  have co: "conn_objs ?s' = conn_objs s"
  proof (cases "pos CustomNode_init = ?p")
    case True
    then show ?thesis unfolding fin by (simp add: addItem_def setPos_def)
  next
    case False
    have n1: "node_objs ?s1 ?n = Some CustomNode_init" by simp
    have "conn_objs ?s2 c = conn_objs s c" for c
      unfolding setPos_conn_objs[OF n1 False]
      by (simp add: CustomNode_init_def option.map_ident)
    then show ?thesis unfolding fin by (simp add: addItem_def fun_eq_iff)
  qed
  show ?thesis
    unfolding paths_current_def co
  proof (intro allI impI)
    fix c conn assume c: "conn_objs s c = Some conn"
    note en = inv_conn_ends[OF inv c]
    have ne: "start_item conn \<noteq> ?n" "end_item conn \<noteq> ?n" using en(1,2) fr(4) by auto
    have "current_path ?s' conn = current_path s conn"
      by (rule current_path_ports)
        (simp_all add: output_port_pos_def input_port_pos_def no ne)
    then show "current_path ?s' conn = Some (path conn)" using pc c by (simp add: paths_current_def)
  qed
qed

lemma init_paths: "paths_current NodeEditorScene_init"
  by (simp add: paths_current_def NodeEditorScene_init_def)

lemma run_paths:
  assumes "scene_inv s" "paths_current s" "run s evs = Inr s'"
  shows "paths_current s'"
  using assms
proof (induction evs arbitrary: s)
  case Nil
  then show ?case by simp
next
  case (Cons ev evs)
  from step_inv[OF Cons.prems(1)] obtain s1 where s1: "step s ev = Inr s1" "scene_inv s1" by blast
  have p1: "paths_current s1"
  proof (cases ev)
    case (AddNode rx ry)
    then show ?thesis using s1(1) add_node_paths[OF Cons.prems(1,2)] by auto
  next
    case (MousePress e)
    then show ?thesis using s1(1) press_paths[OF Cons.prems(2)] by auto
  next
    case (MouseMove e)
    then show ?thesis using s1(1) move_paths[OF Cons.prems(2)] by auto
  next
    case (MouseRelease e)
    then show ?thesis using s1(1) release_paths[OF Cons.prems(1,2)] by auto
  next
    case (NodeMoved n p)
    then show ?thesis using s1(1) setPos_paths[OF Cons.prems(1,2)] by auto
  qed
  have "run s1 evs = Inr s'" using Cons.prems(3) s1(1) by simp
  from Cons.IH[OF s1(2) p1 this] show ?case .
qed

lemma curve_start_end [simp]:
  "path_start (curve sp ep) = Some sp" "path_end (curve sp ep) = Some ep"
  by (simp_all add: curve_def path_end_def Let_def)

lemma current_pathD:
  assumes "current_path s conn = Some pa"
  shows "\<exists>sp ep. output_port_pos s (start_item conn) = Some sp \<and>
     input_port_pos s (end_item conn) = Some ep \<and> pa = curve sp ep"
  using assms by (auto simp: current_path_def split: option.splits)

section \<open>The claims\<close>

text \<open>
  C1. For every sequence of wheel events that starts from a scale within
  [min_zoom, max_zoom] (0.25 and 4.0 after \<^verbatim>\<open>__init__\<close>), the scale stays within these
  limits; and a zoom request whose resulting scale (the current scale times 1.25 for in,
  times 1 / 1.25 for out) would exceed max_zoom or fall below min_zoom leaves the view as
  it is. The rounding \<open>fl\<close> of the products is any monotone function that is exact on
  the two limits and on 1.
\<close>

theorem wheelEvent_scale_within_limits:
  assumes "\<forall>a b. a \<le> b \<longrightarrow> fl a \<le> fl b"
    and "fl (min_zoom v) = min_zoom v" and "fl (max_zoom v) = max_zoom v" and "fl 1 = 1"
    and "0 \<le> min_zoom v" and "min_zoom v \<le> m11 v" and "m11 v \<le> max_zoom v"
  shows "min_zoom v \<le> m11 (wheel_events fl v ds) \<and> m11 (wheel_events fl v ds) \<le> max_zoom v \<and>
         (0 < d \<and> max_zoom v < fl (m11 v * 1.25) \<longrightarrow> wheelEvent fl v d = v) \<and>
         (\<not> 0 < d \<and> fl (m11 v * fl (1 / 1.25)) < min_zoom v \<longrightarrow> wheelEvent fl v d = v)"
proof -
  have mono: "\<And>a b. a \<le> b \<Longrightarrow> fl a \<le> fl b" using assms(1) by blast
  have "min_zoom v \<le> m11 (wheel_events fl v ds) \<and> m11 (wheel_events fl v ds) \<le> max_zoom v"
    using mono assms(2-7) by (rule wheel_events_bounded)
  moreover have "0 < d \<and> max_zoom v < fl (m11 v * 1.25) \<longrightarrow> wheelEvent fl v d = v"
    by (simp add: wheelEvent_def zoom_in_factor_def Let_def)
  moreover have "\<not> 0 < d \<and> fl (m11 v * fl (1 / 1.25)) < min_zoom v \<longrightarrow> wheelEvent fl v d = v"
    by (simp add: wheelEvent_def zoom_in_factor_def zoom_out_factor_def Let_def)
  ultimately show ?thesis by blast
qed

theorem wheelEvent_scale_within_limits_witness:
  "min_zoom ZoomPanView_init = 0.25 \<and> max_zoom ZoomPanView_init = 4 \<and>
   0.25 \<le> m11 (wheel_events id ZoomPanView_init [120, 120, - 120, 120, 120, 120, 120, 120, 120]) \<and>
   m11 (wheel_events id ZoomPanView_init [120, 120, - 120, 120, 120, 120, 120, 120, 120]) \<le> 4 \<and>
   wheelEvent id (ZoomPanView_init\<lparr>m11 := 4\<rparr>) 120 = ZoomPanView_init\<lparr>m11 := 4\<rparr>"
  using wheelEvent_scale_within_limits
          [of id ZoomPanView_init "[120, 120, - 120, 120, 120, 120, 120, 120, 120]" 120]
        wheelEvent_scale_within_limits [of id "ZoomPanView_init\<lparr>m11 := 4\<rparr>" "[]" 120]
  by (simp add: ZoomPanView_init_def)

text \<open>
  C5. For a connection with source node S and target node T, \<^verbatim>\<open>update_path\<close> sets the
  path to a cubic curve that starts at the world position of the output port of S and
  ends at the world position of the input port of T, with control point 1 at
  (start.x + 0.5 dx, start.y) and control point 2 at (start.x + 0.5 dx, end.y), where
  dx = end.x - start.x.
\<close>

theorem update_path_cubic_curve:
  assumes "conn_objs s c = Some conn"
    and "node_objs s (start_item conn) = Some S"
    and "node_objs s (end_item conn) = Some T"
    and "start_pos = mapToScene S (output_pos S)"
    and "end_pos = mapToScene T (input_pos T)"
    and "dx = xcoord end_pos - xcoord start_pos"
  shows "conn_objs (update_path s c) c =
     Some (conn\<lparr>path :=
       [MoveTo start_pos,
        CubicTo (QPointF (xcoord start_pos + 0.5 * dx) (ycoord start_pos))
                (QPointF (xcoord start_pos + 0.5 * dx) (ycoord end_pos))
                end_pos]\<rparr>)"
  using assms by (simp add: update_path_def curve_def Let_def)

theorem update_path_cubic_curve_witness:
  "\<exists>s. run NodeEditorScene_init demo = Inr s \<and>
     conn_objs (update_path s 3) 3 =
       Some \<lparr>start_item = 0, end_item = 1, zValue = - 1,
             path = [MoveTo (QPointF 150 50),
                     CubicTo (QPointF 225 50) (QPointF 225 50) (QPointF 300 50)]\<rparr>"
proof -
  let ?A = "\<lparr>pos = QPointF 0 0, width = 150, height = 100, port_radius = 6,
        input_pos = QPointF 0 50, output_pos = QPointF 150 50, connections = [3]\<rparr>"
  let ?B = "\<lparr>pos = QPointF 300 0, width = 150, height = 100, port_radius = 6,
        input_pos = QPointF 0 50, output_pos = QPointF 150 50, connections = [3]\<rparr>"
  let ?C = "\<lparr>start_item = 0, end_item = 1, zValue = - 1,
             path = [MoveTo (QPointF 150 50),
                     CubicTo (QPointF 225 50) (QPointF 225 50) (QPointF 300 50)]\<rparr>"
  from demo_state obtain s where r: "run NodeEditorScene_init demo = Inr s"
    and c: "conn_objs s 3 = Some ?C"
    and a: "node_objs s 0 = Some ?A" and b: "node_objs s 1 = Some ?B"
    by blast
  have a': "node_objs s (start_item ?C) = Some ?A" using a by simp
  have b': "node_objs s (end_item ?C) = Some ?B" using b by simp
  have sp: "QPointF 150 50 = mapToScene ?A (output_pos ?A)" by (simp add: mapToScene_def padd_def)
  have ep: "QPointF 300 50 = mapToScene ?B (input_pos ?B)" by (simp add: mapToScene_def padd_def)
  have dx: "(150::real) = xcoord (QPointF 300 50) - xcoord (QPointF 150 50)" by simp
  have "conn_objs (update_path s 3) 3 = Some ?C"
    using update_path_cubic_curve [OF c a' b' sp ep dx] by simp
  with r show ?thesis by blast
qed

text \<open>
  C6, as amended. Zooming in from scale 1.0 with factor 1.25 per step: the first six
  steps are applied and reach 1.25^6 = 3.814697265625; the 7th step would give
  1.25^7 > 4.0 and is a no-op, as is every later zoom-in attempt. After 20 steps the scale
  is still 3.814697265625; it is never 4.0. The rounding \<open>fl\<close> is exact on the seven
  products that occur (all are dyadic rationals with few digits).
\<close>

theorem zoom_in_stops_after_six_steps:
  assumes "\<forall>k\<in>{1..7}. fl ((5 / 4) ^ k) = (5 / 4) ^ k"
    and "\<forall>d\<in>set ds. 0 < d"
  shows "m11 (wheel_events fl ZoomPanView_init ds) = (5 / 4) ^ min (length ds) 6"
  using assms(2)
proof (induction ds rule: rev_induct)
  case Nil
  then show ?case by (simp add: ZoomPanView_init_def)
next
  case (snoc d ds)
  let ?v = "wheel_events fl ZoomPanView_init ds"
  have d: "0 < d" using snoc.prems by simp
  have v: "m11 ?v = (5 / 4) ^ min (length ds) 6" using snoc by simp
  have mx: "max_zoom ?v = 4" by (simp add: wheel_events_limits ZoomPanView_init_def)
  show ?case
  proof (cases "length ds < 6")
    case True
    then have m: "m11 ?v = (5 / 4) ^ length ds" using v by simp
    have "fl ((5 / 4) ^ Suc (length ds)) = (5 / 4) ^ Suc (length ds)"
      using True by (intro bspec[OF assms(1)]) simp
    then have "m11 (wheelEvent fl ?v d) = (5 / 4) ^ Suc (length ds)"
      using zoom_in_applied[OF d mx m True] by blast
    then show ?thesis using True by (simp add: wheel_events_append min_def)
  next
    case False
    then have m: "m11 ?v = (5 / 4) ^ 6" using v by simp
    have "fl ((5 / 4) ^ 7) = (5 / 4) ^ 7" by (intro bspec[OF assms(1)]) simp
    then have "wheelEvent fl ?v d = ?v" using zoom_in_rejected[OF d mx m] by blast
    then show ?thesis using False m by (simp add: wheel_events_append min_def)
  qed
qed

theorem zoom_in_stops_after_six_steps_witness:
  "m11 (wheel_events id ZoomPanView_init (replicate 6 120)) = 3.814697265625 \<and>
   m11 (wheel_events id ZoomPanView_init (replicate 7 120)) = 3.814697265625 \<and>
   m11 (wheel_events id ZoomPanView_init (replicate 20 120)) = 3.814697265625"
  using zoom_in_stops_after_six_steps [of id "replicate 6 120"]
        zoom_in_stops_after_six_steps [of id "replicate 7 120"]
        zoom_in_stops_after_six_steps [of id "replicate 20 120"]
  by (simp add: power_divide)

theorem zoom_in_never_reaches_max_counterexample:
  "m11 (wheel_events id ZoomPanView_init (replicate 7 120)) \<noteq> 4.0"
  by (simp add: eval_nat_numeral wheelEvent_def scale_def ZoomPanView_init_def
      zoom_in_factor_def Let_def)

text \<open>
  C7, as amended. \<^verbatim>\<open>ConnectionItem.__init__\<close> takes one source and one target and stores
  them, whatever they are: it accepts equal ones. The check source \<noteq> target is made by
  the release handler before it constructs; so in every state that a sequence of events
  reaches from the empty scene, every connection has a source different from its target.
\<close>

theorem no_self_connection_reachable:
  assumes "run NodeEditorScene_init evs = Inr s" and "conn_objs s c = Some conn"
  shows "start_item conn \<noteq> end_item conn \<and>
         start_item (ConnectionItem_init a b) = a \<and> end_item (ConnectionItem_init a b) = b"
proof -
  from run_inv[OF init_inv, of evs] assms(1) have "scene_inv s" by auto
  then have g: "graph_consistent s" by (rule scene_invD(2))
  have "ends s c = Some (start_item conn, end_item conn)" using assms(2) by (simp add: ends_def)
  with g have "start_item conn \<noteq> end_item conn" unfolding graph_consistent_def by blast
  then show ?thesis by (simp add: ConnectionItem_init_def)
qed

theorem no_self_connection_reachable_witness:
  "\<exists>s conn. run NodeEditorScene_init demo = Inr s \<and> conn_objs s 3 = Some conn \<and>
     start_item conn = 0 \<and> end_item conn = 1 \<and> start_item conn \<noteq> end_item conn"
proof -
  from demo_state obtain s conn where r: "run NodeEditorScene_init demo = Inr s"
    and c: "conn_objs s 3 = Some conn" and e: "start_item conn = 0" "end_item conn = 1"
    by force
  from no_self_connection_reachable [OF r c] e r c show ?thesis by blast
qed

theorem constructor_accepts_self_connection_counterexample:
  "ConnectionItem_init 0 0 = \<lparr>start_item = 0, end_item = 0, zValue = - 1, path = []\<rparr>"
  by (simp add: ConnectionItem_init_def)

text \<open>
  C8, as amended. \<^verbatim>\<open>boundingRect\<close> returns the local rectangle of the node expanded by the
  port radius on both the input (left) and the output (right) side: the rectangle from
  (- port_radius, 0) with width width + 2 port_radius and height height, whose right edge
  is at width + port_radius.
\<close>

theorem boundingRect_expanded_both_sides:
  "boundingRect n = QRectF (- port_radius n) 0 (width n + 2 * port_radius n) (height n) \<and>
   left (boundingRect n) + rect_width (boundingRect n) = width n + port_radius n"
  by (simp add: boundingRect_def)

theorem boundingRect_input_side_only_counterexample:
  "boundingRect CustomNode_init \<noteq>
     QRectF (- port_radius CustomNode_init) 0
            (width CustomNode_init + port_radius CustomNode_init) (height CustomNode_init)"
  by (simp add: boundingRect_def CustomNode_init_def)
text \<open>
  C9. In every state that a sequence of events (adding nodes, mouse press, move and
  release, moving nodes) reaches from the empty scene, every connection in the scene is in
  the attachment lists of both of its end nodes, and every entry of the attachment list of
  any node is a connection in the scene.
\<close>

theorem attachment_lists_consistent_with_scene:
  assumes "run NodeEditorScene_init evs = Inr s"
  shows "(\<forall>c. Connection c \<in> set (items s) \<longrightarrow>
            (\<exists>conn. conn_objs s c = Some conn \<and>
               c \<in> set (attached s (start_item conn)) \<and> c \<in> set (attached s (end_item conn)))) \<and>
         (\<forall>n nd c. node_objs s n = Some nd \<and> c \<in> set (connections nd) \<longrightarrow>
            Connection c \<in> set (items s))"
proof -
  from run_inv[OF init_inv, of evs] assms have "scene_inv s" by auto
  then have g: "graph_consistent s" by (rule scene_invD(2))
  have g1: "\<And>c x y. ends s c = Some (x, y) \<Longrightarrow>
      Connection c \<in> set (items s) \<and> c \<in> set (attached s x) \<and> c \<in> set (attached s y)"
    and g2: "\<And>c. Connection c \<in> set (items s) \<Longrightarrow> ends s c \<noteq> None"
    and g3: "\<And>n c. c \<in> set (attached s n) \<Longrightarrow> \<exists>x y. ends s c = Some (x, y)"
    using g unfolding graph_consistent_def by blast+
  have a: "\<forall>c. Connection c \<in> set (items s) \<longrightarrow>
            (\<exists>conn. conn_objs s c = Some conn \<and>
               c \<in> set (attached s (start_item conn)) \<and> c \<in> set (attached s (end_item conn)))"
  proof (intro allI impI)
    fix c assume "Connection c \<in> set (items s)"
    from g2[OF this] obtain conn where c: "conn_objs s c = Some conn"
      by (auto simp: ends_def)
    then have "ends s c = Some (start_item conn, end_item conn)" by (simp add: ends_def)
    from g1[OF this] c
    show "\<exists>conn. conn_objs s c = Some conn \<and>
               c \<in> set (attached s (start_item conn)) \<and> c \<in> set (attached s (end_item conn))"
      by simp
  qed
  have b: "\<forall>n nd c. node_objs s n = Some nd \<and> c \<in> set (connections nd) \<longrightarrow>
            Connection c \<in> set (items s)"
  proof (intro allI impI)
    fix n nd c assume "node_objs s n = Some nd \<and> c \<in> set (connections nd)"
    then have "c \<in> set (attached s n)" by (simp add: attached_def)
    from g3[OF this] obtain x y where "ends s c = Some (x, y)" by blast
    from g1[OF this] show "Connection c \<in> set (items s)" by simp
  qed
  from a b show ?thesis by blast
qed

theorem attachment_lists_consistent_with_scene_witness:
  "\<exists>s. run NodeEditorScene_init demo = Inr s \<and> Connection 3 \<in> set (items s) \<and>
     (\<exists>conn. conn_objs s 3 = Some conn \<and> start_item conn = 0 \<and> end_item conn = 1 \<and>
        3 \<in> set (attached s (start_item conn)) \<and> 3 \<in> set (attached s (end_item conn))) \<and>
     (\<exists>nd. node_objs s 0 = Some nd \<and> 3 \<in> set (connections nd))"
proof -
  from demo_state obtain s where r: "run NodeEditorScene_init demo = Inr s"
    and i: "items s = [Node 0, Node 1, Connection 3]"
    and c: "conn_objs s 3 = Some \<lparr>start_item = 0, end_item = 1, zValue = - 1,
        path = [MoveTo (QPointF 150 50),
                CubicTo (QPointF 225 50) (QPointF 225 50) (QPointF 300 50)]\<rparr>"
    and a: "node_objs s 0 = Some \<lparr>pos = QPointF 0 0, width = 150, height = 100, port_radius = 6,
        input_pos = QPointF 0 50, output_pos = QPointF 150 50, connections = [3]\<rparr>"
    by blast
  have m: "Connection 3 \<in> set (items s)" by (simp add: i)
  from attachment_lists_consistent_with_scene [OF r] m c
  have "3 \<in> set (attached s 0) \<and> 3 \<in> set (attached s 1)" by fastforce
  with r m c a show ?thesis by simp
qed
text \<open>
  C4, as amended. From the idle state, a press starts a connection gesture if and only if
  it is a left-button press, the topmost item at the pointer is a node and the pointer is
  within the port hit threshold (Manhattan distance under 15) of the output port of that
  node; a press near the input port of a node and not near its output port changes
  nothing.
\<close>

theorem press_starts_gesture_iff:
  assumes "line_in_progress s = None"
  shows "(line_in_progress (mousePressEvent s ev) \<noteq> None \<longleftrightarrow>
            button ev = LeftButton \<and>
            (\<exists>n nd. itemAt ev = Some (Node n) \<and> node_objs s n = Some nd \<and>
               manhattanLength (psub (scenePos ev) (mapToScene nd (output_pos nd))) < 15)) \<and>
         (\<forall>n nd. itemAt ev = Some (Node n) \<and> node_objs s n = Some nd \<and>
               manhattanLength (psub (scenePos ev) (mapToScene nd (input_pos nd))) < 15 \<and>
               \<not> manhattanLength (psub (scenePos ev) (mapToScene nd (output_pos nd))) < 15 \<longrightarrow>
               mousePressEvent s ev = s)"
proof -
  have v: "press_valid s ev \<longleftrightarrow>
            button ev = LeftButton \<and>
            (\<exists>n nd. itemAt ev = Some (Node n) \<and> node_objs s n = Some nd \<and>
               manhattanLength (psub (scenePos ev) (mapToScene nd (output_pos nd))) < 15)"
    by (simp add: press_valid_def near_def)
  have a: "line_in_progress (mousePressEvent s ev) \<noteq> None \<longleftrightarrow> press_valid s ev"
  proof (cases "press_valid s ev")
    case False
    then show ?thesis using assms by (simp add: press_reject)
  next
    case True
    then obtain n nd where h: "button ev = LeftButton" "itemAt ev = Some (Node n)"
      "node_objs s n = Some nd" "near (scenePos ev) (mapToScene nd (output_pos nd))"
      unfolding press_valid_def by blast
    show ?thesis using True by (simp add: press_start[OF h])
  qed
  have b: "\<forall>n nd. itemAt ev = Some (Node n) \<and> node_objs s n = Some nd \<and>
               manhattanLength (psub (scenePos ev) (mapToScene nd (input_pos nd))) < 15 \<and>
               \<not> manhattanLength (psub (scenePos ev) (mapToScene nd (output_pos nd))) < 15 \<longrightarrow>
               mousePressEvent s ev = s"
  proof (intro allI impI)
    fix n nd
    assume h: "itemAt ev = Some (Node n) \<and> node_objs s n = Some nd \<and>
               manhattanLength (psub (scenePos ev) (mapToScene nd (input_pos nd))) < 15 \<and>
               \<not> manhattanLength (psub (scenePos ev) (mapToScene nd (output_pos nd))) < 15"
    then have "\<not> press_valid s ev" by (auto simp: press_valid_def near_def)
    then show "mousePressEvent s ev = s" by (rule press_reject)
  qed
  from a v b show ?thesis by blast
qed

theorem press_starts_gesture_iff_witness:
  "line_in_progress (on_add_node_clicked NodeEditorScene_init 0 0) = None \<and>
   line_in_progress (mousePressEvent (on_add_node_clicked NodeEditorScene_init 0 0)
      \<lparr>button = LeftButton, scenePos = QPointF 152 45, itemAt = Some (Node 0)\<rparr>) \<noteq> None \<and>
   mousePressEvent (on_add_node_clicked NodeEditorScene_init 0 0)
      \<lparr>button = LeftButton, scenePos = QPointF 2 45, itemAt = Some (Node 0)\<rparr> =
     on_add_node_clicked NodeEditorScene_init 0 0"
proof -
  let ?s = "on_add_node_clicked NodeEditorScene_init 0 0"
  let ?nd = "\<lparr>pos = QPointF 0 0, width = 150, height = 100, port_radius = 6,
        input_pos = QPointF 0 50, output_pos = QPointF 150 50, connections = []\<rparr>"
  have idle: "line_in_progress ?s = None" and nd: "node_objs ?s 0 = Some ?nd"
    using one_node_state by simp_all
  have 1: "line_in_progress (mousePressEvent ?s
      \<lparr>button = LeftButton, scenePos = QPointF 152 45, itemAt = Some (Node 0)\<rparr>) \<noteq> None"
    using press_starts_gesture_iff [OF idle,
        of "\<lparr>button = LeftButton, scenePos = QPointF 152 45, itemAt = Some (Node 0)\<rparr>"] nd
    by (simp add: mapToScene_def padd_def psub_def manhattanLength_def)
  have 2: "mousePressEvent ?s
      \<lparr>button = LeftButton, scenePos = QPointF 2 45, itemAt = Some (Node 0)\<rparr> = ?s"
    using press_starts_gesture_iff [OF idle,
        of "\<lparr>button = LeftButton, scenePos = QPointF 2 45, itemAt = Some (Node 0)\<rparr>"] nd
    by (simp add: mapToScene_def padd_def psub_def manhattanLength_def)
  from idle 1 2 show ?thesis by blast
qed

theorem press_other_button_counterexample:
  "itemAt \<lparr>button = MiddleButton, scenePos = QPointF 150 50, itemAt = Some (Node 0)\<rparr> = Some (Node 0) \<and>
   output_port_pos (on_add_node_clicked NodeEditorScene_init 0 0) 0 = Some (QPointF 150 50) \<and>
   manhattanLength (psub (QPointF 150 50) (QPointF 150 50)) < 15 \<and>
   line_in_progress (on_add_node_clicked NodeEditorScene_init 0 0) = None \<and>
   line_in_progress (mousePressEvent (on_add_node_clicked NodeEditorScene_init 0 0)
      \<lparr>button = MiddleButton, scenePos = QPointF 150 50, itemAt = Some (Node 0)\<rparr>) = None"
  by (simp add: scene_defs output_port_pos_def)
text \<open>
  What the release handler does in a state reached from the empty scene with a gesture in
  progress: it raises no error and removes the dashed line of the gesture from the scene.
  It creates a connection if and only if the topmost item at the release point is a node
  other than the source and the release point is within the threshold of the input port
  of that node: then the scene gains exactly one connection, from the source to that node,
  whose path is the curve between the two ports and whose handle is appended to the
  attachment lists of both nodes. Otherwise the connections of the scene, the connection
  objects and the nodes are as before. Only the line of the gesture is removed: another
  dashed line in the scene stays.
\<close>

lemma release_commits_or_cancels:
  assumes "run NodeEditorScene_init evs = Inr s" and "line_in_progress s = Some l"
  shows "\<exists>a na s'.
     scene_start_item s = Some a \<and> node_objs s a = Some na \<and>
     mouseReleaseEvent s ev = Inr s' \<and>
     Line l \<notin> set (items s') \<and> line_in_progress s' = None \<and>
     (\<forall>e nd. itemAt ev = Some (Node e) \<and> node_objs s e = Some nd \<and> e \<noteq> a \<and>
          manhattanLength (psub (scenePos ev) (mapToScene nd (input_pos nd))) < 15 \<longrightarrow>
        filter is_Connection (items s') =
          filter is_Connection (items s) @ [Connection (next_handle s)] \<and>
        conn_objs s' = (conn_objs s)(next_handle s \<mapsto>
          \<lparr>start_item = a, end_item = e, zValue = - 1,
           path = curve (mapToScene na (output_pos na)) (mapToScene nd (input_pos nd))\<rparr>) \<and>
        attached s' a = attached s a @ [next_handle s] \<and>
        attached s' e = attached s e @ [next_handle s]) \<and>
     (\<not> (\<exists>e nd. itemAt ev = Some (Node e) \<and> node_objs s e = Some nd \<and> e \<noteq> a \<and>
          manhattanLength (psub (scenePos ev) (mapToScene nd (input_pos nd))) < 15) \<longrightarrow>
        filter is_Connection (items s') = filter is_Connection (items s) \<and>
        conn_objs s' = conn_objs s \<and> node_objs s' = node_objs s) \<and>
     ((\<forall>l'. Line l' \<in> set (items s) \<longrightarrow> l' = l) \<longrightarrow> filter is_Line (items s') = [])"
proof -
  from run_inv[OF init_inv, of evs] assms(1) have inv: "scene_inv s" by auto
  note g = scene_invD(3)[OF inv]
  obtain a where a: "scene_start_item s = Some a"
    using g assms(2) unfolding gesture_ok_def by auto
  then have "a \<in> dom (node_objs s)" using g unfolding gesture_ok_def by blast
  then obtain na where na: "node_objs s a = Some na" by auto
  let ?valid = "\<exists>e nd. itemAt ev = Some (Node e) \<and> node_objs s e = Some nd \<and> e \<noteq> a \<and>
          manhattanLength (psub (scenePos ev) (mapToScene nd (input_pos nd))) < 15"
  have v: "release_valid s ev \<longleftrightarrow> ?valid"
    using a by (auto simp: release_valid_def near_def)
  show ?thesis
  proof (cases "release_valid s ev")
    case False
    let ?s' = "s\<lparr>dragMode := RubberBandDrag, items := removeAll (Line l) (items s),
            line_in_progress := None, scene_start_item := None, scene_start_pos := None\<rparr>"
    have r: "mouseReleaseEvent s ev = Inr ?s'" by (rule release_cancel[OF assms(2) False])
    have nv: "\<not> ?valid" using False v by simp
    have 1: "Line l \<notin> set (items ?s')" "line_in_progress ?s' = None" by simp_all
    have 2: "filter is_Connection (items ?s') = filter is_Connection (items s)"
      "conn_objs ?s' = conn_objs s" "node_objs ?s' = node_objs s"
      by (simp_all add: filter_removeAll_Line)
    have 3: "(\<forall>l'. Line l' \<in> set (items s) \<longrightarrow> l' = l) \<longrightarrow> filter is_Line (items ?s') = []"
      using only_line_removed[of "items s" l] by simp
    show ?thesis
      apply (rule exI[of _ a], rule exI[of _ na], rule exI[of _ ?s'])
      using a na r 1 2 3 nv by blast
  next
    case True
    then obtain e nd where h: "itemAt ev = Some (Node e)" "node_objs s e = Some nd" "e \<noteq> a"
      "near (scenePos ev) (mapToScene nd (input_pos nd))"
      using a unfolding release_valid_def by auto
    let ?c = "next_handle s"
    from release_connect[OF assms(2) a h na] obtain s' where r: "mouseReleaseEvent s ev = Inr s'"
      and obs: "items s' = removeAll (Line l) (items s) @ [Connection ?c]"
        "conn_objs s' = (conn_objs s)(?c \<mapsto>
          \<lparr>start_item = a, end_item = e, zValue = - 1,
           path = curve (mapToScene na (output_pos na)) (mapToScene nd (input_pos nd))\<rparr>)"
        "node_objs s' = (node_objs s)(a \<mapsto> na\<lparr>connections := connections na @ [?c]\<rparr>,
                                  e \<mapsto> nd\<lparr>connections := connections nd @ [?c]\<rparr>)"
        "line_in_progress s' = None"
      by blast
    have 1: "Line l \<notin> set (items s')" by (simp add: obs)
    have fc: "filter is_Connection (items s') = filter is_Connection (items s) @ [Connection ?c]"
      by (simp add: obs filter_removeAll_Line)
    have at: "attached s' a = attached s a @ [?c]" "attached s' e = attached s e @ [?c]"
      using na h(2,3) by (simp_all add: attached_def obs)
    have 2: "\<forall>e' nd'. itemAt ev = Some (Node e') \<and> node_objs s e' = Some nd' \<and> e' \<noteq> a \<and>
          manhattanLength (psub (scenePos ev) (mapToScene nd' (input_pos nd'))) < 15 \<longrightarrow>
        filter is_Connection (items s') =
          filter is_Connection (items s) @ [Connection (next_handle s)] \<and>
        conn_objs s' = (conn_objs s)(next_handle s \<mapsto>
          \<lparr>start_item = a, end_item = e', zValue = - 1,
           path = curve (mapToScene na (output_pos na)) (mapToScene nd' (input_pos nd'))\<rparr>) \<and>
        attached s' a = attached s a @ [next_handle s] \<and>
        attached s' e' = attached s e' @ [next_handle s]"
    proof (intro allI impI)
      fix e' nd'
      assume "itemAt ev = Some (Node e') \<and> node_objs s e' = Some nd' \<and> e' \<noteq> a \<and>
          manhattanLength (psub (scenePos ev) (mapToScene nd' (input_pos nd'))) < 15"
      then have "e' = e" "nd' = nd" using h(1,2) by simp_all
      then show "filter is_Connection (items s') =
          filter is_Connection (items s) @ [Connection (next_handle s)] \<and>
        conn_objs s' = (conn_objs s)(next_handle s \<mapsto>
          \<lparr>start_item = a, end_item = e', zValue = - 1,
           path = curve (mapToScene na (output_pos na)) (mapToScene nd' (input_pos nd'))\<rparr>) \<and>
        attached s' a = attached s a @ [next_handle s] \<and>
        attached s' e' = attached s e' @ [next_handle s]"
        using fc obs(2) at by simp
    qed
    have 3: "(\<forall>l'. Line l' \<in> set (items s) \<longrightarrow> l' = l) \<longrightarrow> filter is_Line (items s') = []"
      using only_line_removed[of "items s" l] by (simp add: obs)
    have yes: "?valid" using True v by simp
    show ?thesis
      apply (rule exI[of _ a], rule exI[of _ na], rule exI[of _ s'])
      using a na r 1 obs(4) 2 3 yes by blast
  qed
qed

lemma release_commits_or_cancels_example:
  "\<exists>s. run NodeEditorScene_init demo_drag = Inr s \<and> line_in_progress s = Some 2 \<and>
     items s = [Node 0, Node 1, Line 2] \<and>
     (\<exists>s'. mouseReleaseEvent s \<lparr>button = LeftButton, scenePos = QPointF 200 300, itemAt = None\<rparr>
             = Inr s' \<and>
           Line 2 \<notin> set (items s') \<and> filter is_Line (items s') = [] \<and>
           filter is_Connection (items s') = []) \<and>
     (\<exists>s'. mouseReleaseEvent s
             \<lparr>button = LeftButton, scenePos = QPointF 300 50, itemAt = Some (Node 1)\<rparr> = Inr s' \<and>
           Line 2 \<notin> set (items s') \<and> filter is_Line (items s') = [] \<and>
           filter is_Connection (items s') = [Connection 3] \<and>
           attached s' 0 = [3] \<and> attached s' 1 = [3] \<and>
           conn_objs s' 3 =
             Some \<lparr>start_item = 0, end_item = 1, zValue = - 1,
                   path = [MoveTo (QPointF 150 50),
                           CubicTo (QPointF 225 50) (QPointF 225 50) (QPointF 300 50)]\<rparr>)"
proof -
  let ?B = "\<lparr>pos = QPointF 300 0, width = 150, height = 100, port_radius = 6,
        input_pos = QPointF 0 50, output_pos = QPointF 150 50, connections = []\<rparr>"
  let ?A = "\<lparr>pos = QPointF 0 0, width = 150, height = 100, port_radius = 6,
        input_pos = QPointF 0 50, output_pos = QPointF 150 50, connections = []\<rparr>"
  let ?e1 = "\<lparr>button = LeftButton, scenePos = QPointF 200 300, itemAt = None\<rparr>"
  let ?e2 = "\<lparr>button = LeftButton, scenePos = QPointF 300 50, itemAt = Some (Node 1)\<rparr>"
  from demo_drag_state obtain s where r: "run NodeEditorScene_init demo_drag = Inr s"
    and i: "items s = [Node 0, Node 1, Line 2]" and lp: "line_in_progress s = Some 2"
    and st: "scene_start_item s = Some 0" and nh: "next_handle s = 3"
    and a: "node_objs s 0 = Some ?A" and b: "node_objs s 1 = Some ?B"
    by blast
  have only: "\<forall>l'. Line l' \<in> set (items s) \<longrightarrow> l' = 2" by (simp add: i)
  have at0: "attached s 0 = []" "attached s 1 = []" using a b by (simp_all add: attached_def)
  from release_commits_or_cancels [OF r lp, of ?e1] obtain a1 na1 s1 where
    s1: "mouseReleaseEvent s ?e1 = Inr s1" "Line 2 \<notin> set (items s1)"
       "\<not> (\<exists>e nd. itemAt ?e1 = Some (Node e) \<and> node_objs s e = Some nd \<and> e \<noteq> a1 \<and>
          manhattanLength (psub (scenePos ?e1) (mapToScene nd (input_pos nd))) < 15) \<longrightarrow>
        filter is_Connection (items s1) = filter is_Connection (items s) \<and>
        conn_objs s1 = conn_objs s \<and> node_objs s1 = node_objs s"
       "(\<forall>l'. Line l' \<in> set (items s) \<longrightarrow> l' = 2) \<longrightarrow> filter is_Line (items s1) = []"
    by blast
  have "filter is_Connection (items s1) = filter is_Connection (items s)"
    using s1(3) by simp
  then have 1: "filter is_Connection (items s1) = []" by (simp add: i)
  have l1: "filter is_Line (items s1) = []" using s1(4) only by blast
  from release_commits_or_cancels [OF r lp, of ?e2] obtain a' na' s2 where
    s2: "scene_start_item s = Some a'" "node_objs s a' = Some na'"
       "mouseReleaseEvent s ?e2 = Inr s2" "Line 2 \<notin> set (items s2)"
       "\<forall>e nd. itemAt ?e2 = Some (Node e) \<and> node_objs s e = Some nd \<and> e \<noteq> a' \<and>
          manhattanLength (psub (scenePos ?e2) (mapToScene nd (input_pos nd))) < 15 \<longrightarrow>
        filter is_Connection (items s2) =
          filter is_Connection (items s) @ [Connection (next_handle s)] \<and>
        conn_objs s2 = (conn_objs s)(next_handle s \<mapsto>
          \<lparr>start_item = a', end_item = e, zValue = - 1,
           path = curve (mapToScene na' (output_pos na')) (mapToScene nd (input_pos nd))\<rparr>) \<and>
        attached s2 a' = attached s a' @ [next_handle s] \<and>
        attached s2 e = attached s e @ [next_handle s]"
       "(\<forall>l'. Line l' \<in> set (items s) \<longrightarrow> l' = 2) \<longrightarrow> filter is_Line (items s2) = []"
    by blast
  have a0: "a' = 0" using s2(1) st by simp
  have near: "manhattanLength (psub (scenePos ?e2) (mapToScene ?B (input_pos ?B))) < 15"
    by (simp add: mapToScene_def padd_def psub_def manhattanLength_def)
  have "itemAt ?e2 = Some (Node 1) \<and> node_objs s 1 = Some ?B \<and> (1::nat) \<noteq> a' \<and>
          manhattanLength (psub (scenePos ?e2) (mapToScene ?B (input_pos ?B))) < 15"
    using b a0 near by simp
  with s2(5) have
    "filter is_Connection (items s2) =
          filter is_Connection (items s) @ [Connection (next_handle s)] \<and>
     attached s2 a' = attached s a' @ [next_handle s] \<and>
     attached s2 1 = attached s 1 @ [next_handle s] \<and>
     conn_objs s2 = (conn_objs s)(next_handle s \<mapsto>
          \<lparr>start_item = a', end_item = 1, zValue = - 1,
           path = curve (mapToScene na' (output_pos na')) (mapToScene ?B (input_pos ?B))\<rparr>)"
    by blast
  moreover have "na' = ?A" using s2(2) a0 a by simp
  ultimately have cn: "conn_objs s2 3 =
             Some \<lparr>start_item = 0, end_item = 1, zValue = - 1,
                   path = [MoveTo (QPointF 150 50),
                           CubicTo (QPointF 225 50) (QPointF 225 50) (QPointF 300 50)]\<rparr>"
    using a0 nh by (simp add: curve_def Let_def mapToScene_def padd_def)
  note conn = \<open>filter is_Connection (items s2) =
          filter is_Connection (items s) @ [Connection (next_handle s)] \<and>
     attached s2 a' = attached s a' @ [next_handle s] \<and>
     attached s2 1 = attached s 1 @ [next_handle s] \<and>
     conn_objs s2 = (conn_objs s)(next_handle s \<mapsto>
          \<lparr>start_item = a', end_item = 1, zValue = - 1,
           path = curve (mapToScene na' (output_pos na')) (mapToScene ?B (input_pos ?B))\<rparr>)\<close>
  have 2: "filter is_Connection (items s2) = [Connection 3]" "attached s2 0 = [3]"
    "attached s2 1 = [3]"
    using conn a0 nh at0 by (simp_all add: i)
  have 3: "filter is_Line (items s2) = []" using s2(6) only by blast
  have p1: "\<exists>s'. mouseReleaseEvent s ?e1 = Inr s' \<and>
           Line 2 \<notin> set (items s') \<and> filter is_Line (items s') = [] \<and>
           filter is_Connection (items s') = []"
    using s1(1,2) 1 l1 by simp
  have p2: "\<exists>s'. mouseReleaseEvent s ?e2 = Inr s' \<and>
           Line 2 \<notin> set (items s') \<and> filter is_Line (items s') = [] \<and>
           filter is_Connection (items s') = [Connection 3] \<and>
           attached s' 0 = [3] \<and> attached s' 1 = [3] \<and>
           conn_objs s' 3 =
             Some \<lparr>start_item = 0, end_item = 1, zValue = - 1,
                   path = [MoveTo (QPointF 150 50),
                           CubicTo (QPointF 225 50) (QPointF 225 50) (QPointF 300 50)]\<rparr>"
    using s2(3,4) 2 3 cn by simp
  show ?thesis by (rule exI[of _ s]) (intro conjI r lp i p1 p2)
qed

text \<open>
  C3. The claim: on a release while a gesture is in progress the temporary line is removed;
  a connection is created exactly under the two conditions on the release point; and when
  a condition fails, no connection is created and no temporary item remains in the scene.
  The handlers do all of this but the last when a second press comes before the release:
  \<^verbatim>\<open>mousePressEvent\<close> adds a new dashed line and overwrites \<^verbatim>\<open>line_in_progress\<close> without
  removing the line it held, and \<^verbatim>\<open>mouseReleaseEvent\<close> removes the current line only. In
  the session \<open>double_press\<close> the scene holds the dashed lines 2 and 3 before the release;
  the release over the empty canvas creates no connection, ends the gesture, and leaves
  line 2 in the scene.
\<close>

theorem release_after_second_press_leaves_line:
  "map_sum id items (run NodeEditorScene_init (butlast double_press)) =
     Inr [Node 0, Node 1, Line 2, Line 3] \<and>
   map_sum id line_in_progress (run NodeEditorScene_init (butlast double_press)) = Inr (Some 3) \<and>
   map_sum id items (run NodeEditorScene_init double_press) = Inr [Node 0, Node 1, Line 2] \<and>
   map_sum id line_in_progress (run NodeEditorScene_init double_press) = Inr None \<and>
   map_sum id (filter is_Line \<circ> items) (run NodeEditorScene_init double_press) = Inr [Line 2]"
  by (simp add: double_press_def scene_defs)

text \<open>
  C10. There is no check for duplicates. For two different nodes a and b of a state
  reached from the empty scene, every gesture that presses the left button within the
  threshold of the output port of a and releases within the threshold of the input port of
  b creates one more connection from a to b, different from all others: after n such
  gestures the scene holds n more connections from a to b, all distinct, and the
  attachment lists of a and of b each hold n more entries for them. Starting with none,
  there are exactly n.
\<close>

theorem repeated_gestures_add_parallel_connections:
  assumes "run NodeEditorScene_init evs = Inr s" and "a \<noteq> b"
    and "output_port_pos s a = Some p_out" and "input_port_pos s b = Some p_in"
    and "\<forall>pq \<in> set pqs. manhattanLength (psub (fst pq) p_out) < 15 \<and>
                         manhattanLength (psub (snd pq) p_in) < 15"
  shows "\<exists>s'. gestures s a b pqs = Inr s' \<and>
     length (connections_between s' a b) = length (connections_between s a b) + length pqs \<and>
     distinct (connections_between s' a b) \<and>
     length (entries_between s' a a b) = length (entries_between s a a b) + length pqs \<and>
     length (entries_between s' b a b) = length (entries_between s b a b) + length pqs"
proof -
  from run_inv[OF init_inv, of evs] assms(1) have inv: "scene_inv s" by auto
  have n: "\<forall>pq \<in> set pqs. near (fst pq) p_out \<and> near (snd pq) p_in"
    using assms(5) by (simp add: near_def)
  show ?thesis
    by (rule gestures_add[OF inv assms(2,3,4) n inv_distinct_between[OF inv]])
qed

theorem repeated_gestures_add_parallel_connections_witness:
  "\<exists>s s'. run NodeEditorScene_init demo_nodes = Inr s \<and>
     connections_between s 0 1 = [] \<and> entries_between s 0 0 1 = [] \<and>
     entries_between s 1 0 1 = [] \<and>
     gestures s 0 1 [(QPointF 150 50, QPointF 300 50), (QPointF 155 52, QPointF 298 55),
                     (QPointF 148 45, QPointF 303 50)] = Inr s' \<and>
     length (connections_between s' 0 1) = 3 \<and> distinct (connections_between s' 0 1) \<and>
     length (entries_between s' 0 0 1) = 3 \<and> length (entries_between s' 1 0 1) = 3"
proof -
  let ?pqs = "[(QPointF 150 50, QPointF 300 50), (QPointF 155 52, QPointF 298 55),
               (QPointF 148 45, QPointF 303 50)]"
  from demo_nodes_state obtain s where r: "run NodeEditorScene_init demo_nodes = Inr s"
    and i: "items s = [Node 0, Node 1]"
    and a: "node_objs s 0 = Some \<lparr>pos = QPointF 0 0, width = 150, height = 100, port_radius = 6,
        input_pos = QPointF 0 50, output_pos = QPointF 150 50, connections = []\<rparr>"
    and b: "node_objs s 1 = Some \<lparr>pos = QPointF 300 0, width = 150, height = 100, port_radius = 6,
        input_pos = QPointF 0 50, output_pos = QPointF 150 50, connections = []\<rparr>"
    by blast
  have p_out: "output_port_pos s 0 = Some (QPointF 150 50)"
    using a by (simp add: output_port_pos_def mapToScene_def padd_def)
  have p_in: "input_port_pos s 1 = Some (QPointF 300 50)"
    using b by (simp add: input_port_pos_def mapToScene_def padd_def)
  have nr: "\<forall>pq \<in> set ?pqs. manhattanLength (psub (fst pq) (QPointF 150 50)) < 15 \<and>
                         manhattanLength (psub (snd pq) (QPointF 300 50)) < 15"
    by (simp add: manhattanLength_def psub_def)
  have e0: "connections_between s 0 1 = []" "entries_between s 0 0 1 = []"
    "entries_between s 1 0 1 = []"
    using a b by (simp_all add: connections_between_def entries_between_def attached_def i)
  have ne: "(0::nat) \<noteq> 1" by simp
  from repeated_gestures_add_parallel_connections [OF r ne p_out p_in nr]
  obtain s' where "gestures s 0 1 ?pqs = Inr s'"
     "length (connections_between s' 0 1) = 3" "distinct (connections_between s' 0 1)"
     "length (entries_between s' 0 0 1) = 3" "length (entries_between s' 1 0 1) = 3"
    using e0 by auto
  with r e0 show ?thesis by blast
qed
text \<open>
  C2. In every state reached from the empty scene, after the position of a node is set
  (by a drag or by the program), every connection in the attachment list of that node has
  a path that is the curve between the current port positions of its two nodes: its start
  is the world position of the output port of the source and its end the world position
  of the input port of the target, the moved node being at its new position. For a
  connection from A to B, moving A puts the start of the path at the new output port of A
  and leaves the end of the path, at the input port of B, as it was.
\<close>

theorem node_move_recomputes_attached_paths:
  assumes "run NodeEditorScene_init evs = Inr s" and "node_objs s n = Some nd"
    and "c \<in> set (connections nd)"
  shows "\<exists>conn conn' sp ep.
     conn_objs s c = Some conn \<and> conn_objs (setPos s n p) c = Some conn' \<and>
     start_item conn' = start_item conn \<and> end_item conn' = end_item conn \<and>
     (start_item conn = n \<or> end_item conn = n) \<and>
     output_port_pos (setPos s n p) (start_item conn) = Some sp \<and>
     input_port_pos (setPos s n p) (end_item conn) = Some ep \<and>
     path conn' = curve sp ep \<and>
     path_start (path conn') = Some sp \<and> path_end (path conn') = Some ep \<and>
     (start_item conn = n \<longrightarrow>
        sp = padd p (output_pos nd) \<and> path_end (path conn') = path_end (path conn)) \<and>
     (end_item conn = n \<longrightarrow>
        ep = padd p (input_pos nd) \<and> path_start (path conn') = path_start (path conn))"
proof -
  let ?s' = "setPos s n p"
  from run_inv[OF init_inv, of evs] assms(1) have inv: "scene_inv s" by auto
  have pc: "paths_current s" by (rule run_paths[OF init_inv init_paths assms(1)])
  have pc': "paths_current ?s'" by (rule setPos_paths[OF inv pc])
  have sg: "same_graph s ?s'" by (rule setPos_same)
  have "c \<in> set (attached s n)" using assms(2,3) by (simp add: attached_def)
  then obtain x y where xy: "ends s c = Some (x, y)" "n = x \<or> n = y"
    using scene_invD(2)[OF inv] unfolding graph_consistent_def by blast
  have ne: "x \<noteq> y" using xy(1) scene_invD(2)[OF inv] unfolding graph_consistent_def by blast
  from xy(1) obtain conn where c: "conn_objs s c = Some conn"
    and se: "start_item conn = x" "end_item conn = y"
    by (auto simp: ends_def)
  have "ends ?s' c = Some (x, y)" using sg xy(1) by (simp add: same_graph_def)
  then obtain conn' where c': "conn_objs ?s' c = Some conn'"
    and se': "start_item conn' = x" "end_item conn' = y"
    by (auto simp: ends_def)
  have "current_path ?s' conn' = Some (path conn')" using pc' c' by (simp add: paths_current_def)
  from current_pathD[OF this] obtain sp ep where
    new: "output_port_pos ?s' x = Some sp" "input_port_pos ?s' y = Some ep"
      "path conn' = curve sp ep"
    using se' by auto
  have "current_path s conn = Some (path conn)" using pc c by (simp add: paths_current_def)
  from current_pathD[OF this] obtain sp0 ep0 where
    old: "output_port_pos s x = Some sp0" "input_port_pos s y = Some ep0"
      "path conn = curve sp0 ep0"
    using se by auto
  have no: "node_objs ?s' = (node_objs s)(n \<mapsto> nd\<lparr>pos := p\<rparr>)"
    using assms(2) by (simp add: setPos_node_objs)
  have a: "x = n \<longrightarrow> sp = padd p (output_pos nd) \<and> path_end (path conn') = path_end (path conn)"
  proof
    assume xn: "x = n"
    then have "y \<noteq> n" using ne by simp
    then have "input_port_pos ?s' y = input_port_pos s y" by (simp add: input_port_pos_def no)
    then have "ep = ep0" using new(2) old(2) by simp
    moreover have "sp = padd p (output_pos nd)"
      using new(1) xn by (simp add: output_port_pos_def no mapToScene_def)
    ultimately show "sp = padd p (output_pos nd) \<and> path_end (path conn') = path_end (path conn)"
      by (simp add: new(3) old(3))
  qed
  have b: "y = n \<longrightarrow> ep = padd p (input_pos nd) \<and> path_start (path conn') = path_start (path conn)"
  proof
    assume yn: "y = n"
    then have "x \<noteq> n" using ne by simp
    then have "output_port_pos ?s' x = output_port_pos s x" by (simp add: output_port_pos_def no)
    then have "sp = sp0" using new(1) old(1) by simp
    moreover have "ep = padd p (input_pos nd)"
      using new(2) yn by (simp add: input_port_pos_def no mapToScene_def)
    ultimately show "ep = padd p (input_pos nd) \<and> path_start (path conn') = path_start (path conn)"
      by (simp add: new(3) old(3))
  qed
  have d: "start_item conn = n \<or> end_item conn = n" using xy(2) se by auto
  show ?thesis
    apply (rule exI[of _ conn], rule exI[of _ conn'], rule exI[of _ sp], rule exI[of _ ep])
    using c c' se se' d new a b by simp
qed

theorem node_move_recomputes_attached_paths_witness:
  "\<exists>s conn'. run NodeEditorScene_init demo = Inr s \<and>
     conn_objs (setPos s 0 (QPointF 10 20)) 3 = Some conn' \<and>
     start_item conn' = 0 \<and> end_item conn' = 1 \<and>
     output_port_pos (setPos s 0 (QPointF 10 20)) 0 = Some (QPointF 160 70) \<and>
     path_start (path conn') = Some (QPointF 160 70) \<and>
     path_end (path conn') = Some (QPointF 300 50)"
proof -
  let ?A = "\<lparr>pos = QPointF 0 0, width = 150, height = 100, port_radius = 6,
        input_pos = QPointF 0 50, output_pos = QPointF 150 50, connections = [3]\<rparr>"
  let ?C = "\<lparr>start_item = 0, end_item = 1, zValue = - 1,
             path = [MoveTo (QPointF 150 50),
                     CubicTo (QPointF 225 50) (QPointF 225 50) (QPointF 300 50)]\<rparr>"
  let ?p = "QPointF 10 20"
  from demo_state obtain s where r: "run NodeEditorScene_init demo = Inr s"
    and c: "conn_objs s 3 = Some ?C" and a: "node_objs s 0 = Some ?A"
    by blast
  have m: "3 \<in> set (connections ?A)" by simp
  from node_move_recomputes_attached_paths [OF r a m, of ?p]
  obtain conn conn' sp where h:
     "conn_objs s 3 = Some conn" "conn_objs (setPos s 0 ?p) 3 = Some conn'"
     "start_item conn' = start_item conn" "end_item conn' = end_item conn"
     "output_port_pos (setPos s 0 ?p) (start_item conn) = Some sp"
     "path_start (path conn') = Some sp"
     "start_item conn = 0 \<longrightarrow>
        sp = padd ?p (output_pos ?A) \<and> path_end (path conn') = path_end (path conn)"
    by (elim exE conjE) (rule that)
  have cc: "conn = ?C" using h(1) c by simp
  have sp: "sp = QPointF 160 70" and pe: "path_end (path conn') = Some (QPointF 300 50)"
    using h(7) by (simp_all add: cc padd_def path_end_def)
  show ?thesis
    apply (rule exI[of _ s], rule exI[of _ conn'])
    using r h(2,3,4,5,6) sp pe by (simp add: cc)
qed

end
